theory Spec2Isabelle
  imports Complex_Main
begin

section \<open>Data model (types/types.ts)\<close>

text \<open>
  Numbers that the program only ever uses as whole values (identifiers, millisecond
  time values, row indices) are \<open>int\<close> or \<open>nat\<close>; the ratios and percentages
  computed from them are exact rationals. A \<open>Date\<close> object is its time value in
  milliseconds; an invalid \<open>Date\<close> (time value \<open>NaN\<close>) is \<open>None\<close>.
\<close>

datatype TaskStatus = Planned | InProgress | Completed | Cancelled

record Task =
  id' :: int
  projectId :: int
  name :: string
  status :: TaskStatus
  parentTaskId :: "int option"
  dependsOn :: "int list"
  startDate :: "string option"
  dueDate :: "string option"

record TaskRange =
  start :: int
  end' :: int

text \<open>
  The fields \<open>start\<close> and \<open>end\<close> of the timeline range are \<open>range_start\<close> and
  \<open>range_end\<close> here, the dates \<open>new Date(startMs)\<close> and \<open>new Date(endMs)\<close>.
\<close>

record TimelineRange =
  range_start :: int
  range_end :: int
  startMs :: int
  endMs :: int

section \<open>Date resolution and task intervals\<close>

text \<open>
  \<open>parseDate\<close>: \<open>if (!value) return null\<close> rejects \<open>null\<close> and the empty string;
  otherwise the string goes to the runtime's \<open>new Date(value)\<close>, which is the
  parameter \<open>parse\<close> (\<open>None\<close> where \<open>getTime()\<close> is \<open>NaN\<close>).
\<close>

definition parseDate :: "(string \<Rightarrow> int option) \<Rightarrow> string option \<Rightarrow> int option" where
  "parseDate parse v =
     (case v of
        None \<Rightarrow> None
      | Some s \<Rightarrow> (if s = [] then None else parse s))"

definition getTaskRange :: "(string \<Rightarrow> int option) \<Rightarrow> Task \<Rightarrow> TaskRange option" where
  "getTaskRange parse t =
     (let s = parseDate parse (startDate t);
          e = (case parseDate parse (dueDate t) of Some d \<Rightarrow> Some d | None \<Rightarrow> s)
      in case (s, e) of
           (Some s', Some e') \<Rightarrow> Some \<lparr>start = s', end' = e'\<rparr>
         | _ \<Rightarrow> None)"

text \<open>\<open>tasks.map(getTaskRange).filter(Boolean)\<close>\<close>

definition taskRanges :: "(string \<Rightarrow> int option) \<Rightarrow> Task list \<Rightarrow> TaskRange list" where
  "taskRanges parse tasks = List.map_filter (getTaskRange parse) tasks"

text \<open>
  \<open>Math.min(...xs)\<close> and \<open>Math.max(...xs)\<close> are only called behind the guard
  \<open>ranges.length === 0\<close>, on a list with a first element.
\<close>

definition timelineRange :: "(string \<Rightarrow> int option) \<Rightarrow> Task list \<Rightarrow> TimelineRange option" where
  "timelineRange parse tasks =
     (case taskRanges parse tasks of
        [] \<Rightarrow> None
      | r # rs \<Rightarrow>
          (let sMs = foldl min (start r) (map start rs);
               eMs = foldl max (end' r) (map end' rs)
           in Some \<lparr>range_start = sMs, range_end = eMs, startMs = sMs, endMs = eMs\<rparr>))"

text \<open>
  \<open>const rangeMs = Math.max(1, timelineRange.endMs - timelineRange.startMs)\<close>: the
  divisor of the tick, dependency-line and bar computations.
\<close>

definition rangeMs :: "TimelineRange \<Rightarrow> int" where
  "rangeMs R = max 1 (endMs R - startMs R)"

section \<open>Ordering of sibling tasks\<close>

text \<open>
  A JavaScript number as far as \<open>compareTasks\<close> needs it: a finite whole value, one of
  the infinities, or \<open>NaN\<close>. A task without a resolvable start date gets the key
  \<open>Number.POSITIVE_INFINITY\<close>.
\<close>

datatype JsNumber = Finite int | PosInfinity | NegInfinity | NaN

fun js_sub :: "JsNumber \<Rightarrow> JsNumber \<Rightarrow> JsNumber" where
  "js_sub (Finite a) (Finite b) = Finite (a - b)"
| "js_sub (Finite a) PosInfinity = NegInfinity"
| "js_sub (Finite a) NegInfinity = PosInfinity"
| "js_sub PosInfinity (Finite b) = PosInfinity"
| "js_sub PosInfinity NegInfinity = PosInfinity"
| "js_sub NegInfinity (Finite b) = NegInfinity"
| "js_sub NegInfinity PosInfinity = NegInfinity"
| "js_sub _ _ = NaN"

fun js_negative :: "JsNumber \<Rightarrow> bool" where
  "js_negative (Finite n) = (n < 0)"
| "js_negative NegInfinity = True"
| "js_negative _ = False"

fun js_positive :: "JsNumber \<Rightarrow> bool" where
  "js_positive (Finite n) = (0 < n)"
| "js_positive PosInfinity = True"
| "js_positive _ = False"

text \<open>\<open>parseDate(t.startDate)?.getTime() ?? Number.POSITIVE_INFINITY\<close>\<close>

definition startKey :: "(string \<Rightarrow> int option) \<Rightarrow> Task \<Rightarrow> JsNumber" where
  "startKey parse t =
     (case parseDate parse (startDate t) of Some ms \<Rightarrow> Finite ms | None \<Rightarrow> PosInfinity)"

text \<open>
  \<open>compareTasks\<close>. The collation \<open>String.prototype.localeCompare\<close> belongs to the
  runtime and is the parameter \<open>localeCompare\<close> (negative, zero or positive).
\<close>

definition compareTasks ::
  "(string \<Rightarrow> int option) \<Rightarrow> (string \<Rightarrow> string \<Rightarrow> int) \<Rightarrow> Task \<Rightarrow> Task \<Rightarrow> JsNumber" where
  "compareTasks parse localeCompare a b =
     (let aStart = startKey parse a; bStart = startKey parse b
      in if aStart \<noteq> bStart then js_sub aStart bStart
         else Finite (localeCompare (name a) (name b)))"

text \<open>
  \<open>codeCompare\<close> is the order that the specification names, case-sensitive
  lexicographic ascending: names are compared by character code, the first difference
  decides, a proper prefix comes first. It is not what \<open>localeCompare\<close> computes and
  is never passed for it; it serves to state the difference.
\<close>

fun codeCompare :: "string \<Rightarrow> string \<Rightarrow> int" where
  "codeCompare [] [] = 0"
| "codeCompare [] (y # ys) = - 1"
| "codeCompare (x # xs) [] = 1"
| "codeCompare (x # xs) (y # ys) =
     (if (of_char x :: nat) < of_char y then - 1
      else if (of_char y :: nat) < of_char x then 1
      else codeCompare xs ys)"

text \<open>
  \<open>letterCollation\<close> gives the values of \<open>a.localeCompare(b)\<close> in the default (root)
  collation of the runtime for names made of the letters A to Z and a to z, as all
  names of the examples are: the letters are compared alphabetically without regard to
  case, a proper prefix first (so \<open>alpha\<close> comes before \<open>Beta\<close> and \<open>Z\<close> after \<open>a\<close>);
  names that are equal up to case are ordered at their first difference, the lower
  case letter first (so \<open>a\<close> comes before \<open>A\<close>). Names with other characters are
  outside this definition.
\<close>

definition isUpperLetter :: "char \<Rightarrow> bool" where
  "isUpperLetter c \<longleftrightarrow> (65::nat) \<le> of_char c \<and> (of_char c :: nat) \<le> 90"

definition toLowerLetter :: "char \<Rightarrow> char" where
  "toLowerLetter c = (if isUpperLetter c then char_of ((of_char c :: nat) + 32) else c)"

fun caseCompare :: "string \<Rightarrow> string \<Rightarrow> int" where
  "caseCompare (x # xs) (y # ys) =
     (if x = y then caseCompare xs ys else if isUpperLetter x then 1 else - 1)"
| "caseCompare _ _ = 0"

definition letterCollation :: "string \<Rightarrow> string \<Rightarrow> int" where
  "letterCollation x y =
     (let p = codeCompare (map toLowerLetter x) (map toLowerLetter y)
      in if p \<noteq> 0 then p else caseCompare x y)"

text \<open>
  \<open>Array.prototype.sort(comparefn)\<close> is a stable sort: an element moves behind another
  one only where the comparison is positive (a \<open>NaN\<close> result counts as zero). It is
  written as the stable insertion sort.
\<close>

fun insert_sorted :: "('a \<Rightarrow> 'a \<Rightarrow> JsNumber) \<Rightarrow> 'a \<Rightarrow> 'a list \<Rightarrow> 'a list" where
  "insert_sorted cmp x [] = [x]"
| "insert_sorted cmp x (y # ys) =
     (if js_positive (cmp x y) then y # insert_sorted cmp x ys else x # y # ys)"

definition array_sort :: "('a \<Rightarrow> 'a \<Rightarrow> JsNumber) \<Rightarrow> 'a list \<Rightarrow> 'a list" where
  "array_sort cmp xs = foldr (insert_sorted cmp) xs []"

section \<open>Building the task rows\<close>

record TaskRow =
  task :: Task
  depth :: nat
  number :: string

text \<open>Decimal rendering of \<open>index + 1\<close> inside the template strings.\<close>

definition digit :: "nat \<Rightarrow> char" where
  "digit n = char_of (48 + n)"

fun string_of_nat :: "nat \<Rightarrow> string" where
  "string_of_nat n =
     (if n < 10 then [digit n] else string_of_nat (n div 10) @ [digit (n mod 10)])"

declare string_of_nat.simps [simp del]

text \<open>
  The \<open>Map\<close> from parent reference to the tasks that carry it, filled in input order
  (\<open>tasks.forEach\<close> with \<open>group.push(task)\<close> or \<open>byParent.set(key, [task])\<close>).
\<close>

definition byParent_add :: "(int option \<rightharpoonup> Task list) \<Rightarrow> Task \<Rightarrow> (int option \<rightharpoonup> Task list)" where
  "byParent_add m t =
     (let key = parentTaskId t
      in case m key of
           Some grp \<Rightarrow> m(key \<mapsto> grp @ [t])
         | None \<Rightarrow> m(key \<mapsto> [t]))"

definition byParent :: "Task list \<Rightarrow> (int option \<rightharpoonup> Task list)" where
  "byParent tasks = foldl byParent_add Map.empty tasks"

text \<open>\<open>byParent.get(key) ?? []\<close>\<close>

definition getOrEmpty :: "('k \<rightharpoonup> 'v list) \<Rightarrow> 'k \<Rightarrow> 'v list" where
  "getOrEmpty m k = (case m k of None \<Rightarrow> [] | Some g \<Rightarrow> g)"

text \<open>
  \<open>xs.forEach((x, index) => ...)\<close> over a callback that updates a state and may fail
  to return.
\<close>

fun forEach :: "('a \<Rightarrow> nat \<Rightarrow> 's \<Rightarrow> 's option) \<Rightarrow> 'a list \<Rightarrow> nat \<Rightarrow> 's \<Rightarrow> 's option" where
  "forEach f [] i s = Some s"
| "forEach f (x # xs) i s =
     (case f x i s of None \<Rightarrow> None | Some s' \<Rightarrow> forEach f xs (Suc i) s')"

text \<open>
  \<open>(byParent.get(key) ?? []).slice().sort(compareTasks)\<close>: the sorted copy of one
  bucket, taken for the roots (\<open>null\<close>) and for the children of a task.
\<close>

definition sortedBucket ::
  "(int option \<rightharpoonup> Task list) \<Rightarrow> (Task \<Rightarrow> Task \<Rightarrow> JsNumber) \<Rightarrow> int option \<Rightarrow> Task list" where
  "sortedBucket bp cmp k = array_sort cmp (getOrEmpty bp k)"

text \<open>
  \<open>visit\<close> pushes the row of a task onto \<open>rows\<close> and then visits the sorted children.
  The source has no guard against a parent chain that returns to itself, so the
  recursion depth is bounded by fuel: \<open>None\<close> says that the call did not return within
  that depth.
\<close>

fun visit ::
  "nat \<Rightarrow> (int option \<rightharpoonup> Task list) \<Rightarrow> (Task \<Rightarrow> Task \<Rightarrow> JsNumber) \<Rightarrow>
     Task \<Rightarrow> nat \<Rightarrow> string \<Rightarrow> TaskRow list \<Rightarrow> TaskRow list option" where
  "visit 0 bp cmp t d num rows = None"
| "visit (Suc fuel) bp cmp t d num rows =
     (let rows1 = rows @ [\<lparr>task = t, depth = d, number = num\<rparr>];
          children = sortedBucket bp cmp (Some (id' t))
      in forEach
           (\<lambda>child index rs.
              visit fuel bp cmp child (d + 1) (num @ ''.'' @ string_of_nat (index + 1)) rs)
           children 0 rows1)"

definition buildTaskRows ::
  "(string \<Rightarrow> int option) \<Rightarrow> (string \<Rightarrow> string \<Rightarrow> int) \<Rightarrow> nat \<Rightarrow> Task list \<Rightarrow> TaskRow list option" where
  "buildTaskRows parse localeCompare fuel tasks =
     (let bp = byParent tasks;
          cmp = compareTasks parse localeCompare;
          roots = sortedBucket bp cmp None
      in forEach (\<lambda>root index rs. visit fuel bp cmp root 0 (string_of_nat (index + 1)) rs)
           roots 0 [])"

text \<open>\<open>taskIndexById\<close>: a later row with the same identifier overwrites an earlier one.\<close>

definition taskIndexById :: "TaskRow list \<Rightarrow> (int \<rightharpoonup> nat)" where
  "taskIndexById taskRows =
     foldl (\<lambda>m (row, index). m(id' (task row) \<mapsto> index)) Map.empty
       (zip taskRows [0..<length taskRows])"

section \<open>Ticks\<close>

record Tick =
  label :: string
  position :: rat

definition tickCount :: nat where
  "tickCount = 4"

text \<open>
  \<open>new Date(v)\<close> for a number: the time value is cut to a whole number of
  milliseconds, and is invalid beyond 8.64e15.
\<close>

definition newDate :: "rat \<Rightarrow> int option" where
  "newDate v =
     (if 8640000000000000 < \<bar>v\<bar> then None
      else Some (if 0 \<le> v then \<lfloor>v\<rfloor> else \<lceil>v\<rceil>))"

text \<open>
  \<open>formatShortDate\<close>; the parameter \<open>shortLabel\<close> is the runtime's
  \<open>toLocaleDateString(undefined, {month: 'short', day: 'numeric'})\<close>, and the
  placeholder is the em dash (three bytes in UTF-8).
\<close>

definition formatShortDate :: "(int option \<Rightarrow> string) \<Rightarrow> int option option \<Rightarrow> string" where
  "formatShortDate shortLabel v =
     (case v of
        None \<Rightarrow> [char_of (226::nat), char_of (128::nat), char_of (148::nat)]
      | Some d \<Rightarrow> shortLabel d)"

function tick_loop ::
  "(int option \<Rightarrow> string) \<Rightarrow> TimelineRange \<Rightarrow> int \<Rightarrow> nat \<Rightarrow> Tick list \<Rightarrow> Tick list" where
  "tick_loop shortLabel R rMs i ticks =
     (if i \<le> tickCount then
        (let ratio = (of_nat i :: rat) / of_nat tickCount;
             tickDate = newDate (of_int (startMs R) + of_int rMs * ratio)
         in tick_loop shortLabel R rMs (i + 1)
              (ticks @ [\<lparr>label = formatShortDate shortLabel (Some tickDate),
                         position = ratio * 100\<rparr>]))
      else ticks)"
  by pat_completeness auto
termination
  by (relation "measure (\<lambda>(shortLabel, R, rMs, i, ticks). Suc tickCount - i)") auto

declare tick_loop.simps [simp del]

definition timelineTicks :: "(int option \<Rightarrow> string) \<Rightarrow> TimelineRange option \<Rightarrow> Tick list" where
  "timelineTicks shortLabel timelineRange' =
     (case timelineRange' of
        None \<Rightarrow> []
      | Some R \<Rightarrow> tick_loop shortLabel R (rangeMs R) 0 [])"

section \<open>Dependency lines\<close>

text \<open>
  The key \<open>`${dependencyId}-${row.task.id}`\<close> of a line is kept as the two identifiers
  it is built from.
\<close>

record DependencyLine =
  dependencyId :: int
  dependentId :: int
  x1 :: rat
  y1 :: rat
  x2 :: rat
  y2 :: rat

definition ROW_HEIGHT :: rat where
  "ROW_HEIGHT = 48"

definition toX :: "TimelineRange \<Rightarrow> int \<Rightarrow> rat \<Rightarrow> int \<Rightarrow> rat" where
  "toX R rMs timelineWidth date = (of_int (date - startMs R) / of_int rMs) * timelineWidth"

definition toY :: "nat \<Rightarrow> rat" where
  "toY index = of_nat index * ROW_HEIGHT + ROW_HEIGHT / 2"

text \<open>\<open>taskRows[i]?.task\<close>: an index outside the array gives \<open>undefined\<close>.\<close>

definition nth_opt :: "'a list \<Rightarrow> nat \<Rightarrow> 'a option" where
  "nth_opt xs i = (if i < length xs then Some (xs ! i) else None)"

definition dependencyStep ::
  "(string \<Rightarrow> int option) \<Rightarrow> TimelineRange \<Rightarrow> int \<Rightarrow> rat \<Rightarrow> TaskRow list \<Rightarrow> (int \<rightharpoonup> nat) \<Rightarrow>
     TaskRow \<Rightarrow> nat \<Rightarrow> TaskRange \<Rightarrow> DependencyLine list \<Rightarrow> int \<Rightarrow> DependencyLine list" where
  "dependencyStep parse R rMs timelineWidth taskRows indexById row rowIndex taskRange ls dependencyId' =
     (case indexById dependencyId' of
        None \<Rightarrow> ls
      | Some dependencyIndex \<Rightarrow>
          (case nth_opt taskRows dependencyIndex of
             None \<Rightarrow> ls
           | Some dependencyRow \<Rightarrow>
               (case getTaskRange parse (task dependencyRow) of
                  None \<Rightarrow> ls
                | Some dependencyRange \<Rightarrow>
                    ls @ [\<lparr>dependencyId = dependencyId', dependentId = id' (task row),
                           x1 = toX R rMs timelineWidth (end' dependencyRange),
                           y1 = toY dependencyIndex,
                           x2 = toX R rMs timelineWidth (start taskRange),
                           y2 = toY rowIndex\<rparr>])))"

definition rowStep ::
  "(string \<Rightarrow> int option) \<Rightarrow> TimelineRange \<Rightarrow> int \<Rightarrow> rat \<Rightarrow> TaskRow list \<Rightarrow> (int \<rightharpoonup> nat) \<Rightarrow>
     DependencyLine list \<Rightarrow> TaskRow \<times> nat \<Rightarrow> DependencyLine list" where
  "rowStep parse R rMs timelineWidth taskRows indexById ls ri =
     (case ri of (row, rowIndex) \<Rightarrow>
        (case getTaskRange parse (task row) of
           None \<Rightarrow> ls
         | Some taskRange \<Rightarrow>
             foldl (dependencyStep parse R rMs timelineWidth taskRows indexById row rowIndex taskRange)
               ls (dependsOn (task row))))"

definition dependencyLines ::
  "(string \<Rightarrow> int option) \<Rightarrow> (int \<rightharpoonup> nat) \<Rightarrow> TaskRow list \<Rightarrow> TimelineRange option \<Rightarrow> rat \<Rightarrow>
     DependencyLine list" where
  "dependencyLines parse indexById taskRows timelineRange' timelineWidth =
     (case timelineRange' of
        None \<Rightarrow> []
      | Some R \<Rightarrow>
          (if timelineWidth = 0 then []
           else foldl (rowStep parse R (rangeMs R) timelineWidth taskRows indexById) []
                  (zip taskRows [0..<length taskRows])))"

section \<open>Bars\<close>

record BarStyle =
  top' :: rat
  left :: rat
  width :: rat

record Bar =
  key :: int
  className :: string
  style :: "BarStyle option"

definition statusName :: "TaskStatus \<Rightarrow> string" where
  "statusName s =
     (case s of Planned \<Rightarrow> ''planned'' | InProgress \<Rightarrow> ''in progress''
      | Completed \<Rightarrow> ''completed'' | Cancelled \<Rightarrow> ''cancelled'')"

text \<open>\<open>s.replace(' ', '-')\<close> with a string pattern replaces the first occurrence only.\<close>

fun replaceFirst :: "char \<Rightarrow> char \<Rightarrow> string \<Rightarrow> string" where
  "replaceFirst c d [] = []"
| "replaceFirst c d (x # xs) = (if x = c then d # xs else x # replaceFirst c d xs)"

definition bar :: "(string \<Rightarrow> int option) \<Rightarrow> TimelineRange option \<Rightarrow> TaskRow \<times> nat \<Rightarrow> Bar" where
  "bar parse timelineRange' ri =
     (case ri of (row, index) \<Rightarrow>
        (case (getTaskRange parse (task row), timelineRange') of
           (Some rg, Some R) \<Rightarrow>
             (let rMs = rangeMs R;
                  l = (of_int (start rg - startMs R) / of_int rMs) * 100;
                  w = (of_int (end' rg - start rg) / of_int rMs) * 100;
                  barWidth = max w 1
              in \<lparr>key = id' (task row),
                  className = ''gantt__bar gantt__bar--''
                     @ replaceFirst CHR '' '' CHR ''-'' (statusName (status (task row))),
                  style = Some \<lparr>top' = of_nat index * ROW_HEIGHT + ROW_HEIGHT / 2 - 8,
                                left = l, width = barWidth\<rparr>\<rparr>)
         | _ \<Rightarrow> \<lparr>key = id' (task row), className = ''gantt__bar'', style = None\<rparr>))"

definition gantt_bars :: "(string \<Rightarrow> int option) \<Rightarrow> TimelineRange option \<Rightarrow> TaskRow list \<Rightarrow> Bar list" where
  "gantt_bars parse timelineRange' taskRows =
     map (bar parse timelineRange') (zip taskRows [0..<length taskRows])"

section \<open>Notions used to state the properties of the rows\<close>

text \<open>
  A task is reachable from a root when it has no parent reference, or when its parent
  reference is the identifier of a reachable task.
\<close>

inductive reachable :: "Task list \<Rightarrow> Task \<Rightarrow> bool" for tasks where
  root: "t \<in> set tasks \<Longrightarrow> parentTaskId t = None \<Longrightarrow> reachable tasks t"
| child: "reachable tasks s \<Longrightarrow> t \<in> set tasks \<Longrightarrow> parentTaskId t = Some (id' s) \<Longrightarrow>
          reachable tasks t"

text \<open>The same with the number of parent references between the task and its root.\<close>

inductive reachDepth :: "Task list \<Rightarrow> Task \<Rightarrow> nat \<Rightarrow> bool" for tasks where
  root: "t \<in> set tasks \<Longrightarrow> parentTaskId t = None \<Longrightarrow> reachDepth tasks t 0"
| child: "reachDepth tasks s k \<Longrightarrow> t \<in> set tasks \<Longrightarrow> parentTaskId t = Some (id' s) \<Longrightarrow>
          reachDepth tasks t (Suc k)"

text \<open>
  \<open>ancestor tasks c p\<close>: following parent references from \<open>c\<close>, one step or more, leads
  to \<open>p\<close>. A task lies on a cycle of parent references when it is its own ancestor.
\<close>

inductive ancestor :: "Task list \<Rightarrow> Task \<Rightarrow> Task \<Rightarrow> bool" for tasks where
  parent: "c \<in> set tasks \<Longrightarrow> p \<in> set tasks \<Longrightarrow> parentTaskId c = Some (id' p) \<Longrightarrow>
           ancestor tasks c p"
| step: "ancestor tasks c p \<Longrightarrow> q \<in> set tasks \<Longrightarrow> parentTaskId p = Some (id' q) \<Longrightarrow>
         ancestor tasks c q"

text \<open>
  \<open>childRow bp cmp r' r\<close>: row \<open>r\<close> is what \<open>visit\<close> of the row \<open>r'\<close> pushes for one of
  its children: the task at some position \<open>a\<close> of the sorted bucket of \<open>r'\<close>, one level
  deeper, numbered with the number of \<open>r'\<close>, a dot and \<open>a + 1\<close>.
\<close>

definition childRow ::
  "(int option \<rightharpoonup> Task list) \<Rightarrow> (Task \<Rightarrow> Task \<Rightarrow> JsNumber) \<Rightarrow> TaskRow \<Rightarrow> TaskRow \<Rightarrow> bool" where
  "childRow bp cmp r' r \<longleftrightarrow>
     (\<exists>a < length (sortedBucket bp cmp (Some (id' (task r')))).
         sortedBucket bp cmp (Some (id' (task r'))) ! a = task r \<and>
         number r = number r' @ ''.'' @ string_of_nat (a + 1) \<and>
         depth r = depth r' + 1)"

text \<open>
  \<open>segOK\<close>: a list of rows that starts with the given row and in which every later row
  is deeper than the first and is the child row of an earlier one, all rows in between
  being deeper than that parent row.
\<close>

definition segOK ::
  "(int option \<rightharpoonup> Task list) \<Rightarrow> (Task \<Rightarrow> Task \<Rightarrow> JsNumber) \<Rightarrow> Task \<Rightarrow> nat \<Rightarrow> string \<Rightarrow>
     TaskRow list \<Rightarrow> bool" where
  "segOK bp cmp t d num seg \<longleftrightarrow>
     seg \<noteq> [] \<and> seg ! 0 = \<lparr>task = t, depth = d, number = num\<rparr> \<and>
     (\<forall>j < length seg. 0 < j \<longrightarrow>
        d < depth (seg ! j) \<and>
        (\<exists>i < j. childRow bp cmp (seg ! i) (seg ! j) \<and>
                 (\<forall>k. i < k \<and> k < j \<longrightarrow> depth (seg ! i) < depth (seg ! k))))"

text \<open>
  \<open>rowsOK\<close>: every row is either the row of a root (depth 0, numbered by its position
  among the sorted roots) or the child row of an earlier row, as above.
\<close>

definition rowsOK ::
  "(int option \<rightharpoonup> Task list) \<Rightarrow> (Task \<Rightarrow> Task \<Rightarrow> JsNumber) \<Rightarrow> TaskRow list \<Rightarrow> bool" where
  "rowsOK bp cmp rows \<longleftrightarrow>
     (\<forall>j < length rows.
        (\<exists>a < length (sortedBucket bp cmp None).
            sortedBucket bp cmp None ! a = task (rows ! j) \<and>
            number (rows ! j) = string_of_nat (a + 1) \<and> depth (rows ! j) = 0) \<or>
        (\<exists>i < j. childRow bp cmp (rows ! i) (rows ! j) \<and>
                 (\<forall>k. i < k \<and> k < j \<longrightarrow> depth (rows ! i) < depth (rows ! k))))"

text \<open>
  The number string of a path of sibling positions, the position of the row itself
  first and that of its root last.
\<close>

fun numberOf :: "nat list \<Rightarrow> string" where
  "numberOf [] = []"
| "numberOf [a] = string_of_nat a"
| "numberOf (a # p) = numberOf p @ ''.'' @ string_of_nat a"

section \<open>Example inputs\<close>

text \<open>
  The time values \<open>new Date(s).getTime()\<close> of the date-only ISO strings used in the
  examples below (UTC midnight of that day).
\<close>

definition isoDates :: "string \<Rightarrow> int option" where
  "isoDates s =
     (if s = ''2024-01-01'' then Some 1704067200000
      else if s = ''2024-01-02'' then Some 1704153600000
      else if s = ''2024-01-03'' then Some 1704240000000
      else if s = ''2024-01-05'' then Some 1704412800000
      else if s = ''2024-01-10'' then Some 1704844800000
      else if s = ''2024-02-01'' then Some 1706745600000
      else None)"

definition mkTask :: "int \<Rightarrow> string \<Rightarrow> int option \<Rightarrow> int list \<Rightarrow> string option \<Rightarrow> string option \<Rightarrow> Task" where
  "mkTask i n p ds s d =
     \<lparr>id' = i, projectId = 1, name = n, status = Planned, parentTaskId = p,
      dependsOn = ds, startDate = s, dueDate = d\<rparr>"

definition scenarioA :: "Task list" where
  "scenarioA =
     [mkTask 1 ''Design'' None [] (Some ''2024-01-01'') (Some ''2024-01-05''),
      mkTask 2 ''Draft'' (Some 1) [] (Some ''2024-01-02'') (Some ''2024-01-03'')]"

definition dueOnly :: Task where
  "dueOnly = mkTask 3 ''Loose'' None [] None (Some ''2024-01-05'')"

definition lateStart :: Task where
  "lateStart = mkTask 1 ''A'' None [] (Some ''2024-01-10'') (Some ''2024-01-05'')"

definition milestone :: Task where
  "milestone = mkTask 4 ''Milestone'' (Some 1) [] (Some ''2024-01-03'') (Some ''2024-01-03'')"

definition alpha :: Task where
  "alpha = mkTask 2 ''Alpha'' None [] (Some ''2024-02-01'') None"

definition beta :: Task where
  "beta = mkTask 1 ''Beta'' None [] (Some ''2024-02-01'') None"

definition lowerAlpha :: Task where
  "lowerAlpha = mkTask 3 ''alpha'' None [] (Some ''2024-02-01'') None"

text \<open>Two tasks with the same identifier, the second a child of that identifier.\<close>

definition twinA :: Task where
  "twinA = mkTask 1 ''A'' None [] None None"

definition twinB :: Task where
  "twinB = mkTask 1 ''B'' (Some 1) [] None None"

definition twins :: "Task list" where
  "twins = [twinA, twinB]"

text \<open>A task whose parent reference names no task, next to the two tasks above.\<close>

definition orphan :: Task where
  "orphan = mkTask 5 ''Orphan'' (Some 99) [1] (Some ''2024-01-03'') None"

definition scenarioC :: "Task list" where
  "scenarioC = scenarioA @ [orphan]"

definition scenarioA_rows :: "TaskRow list" where
  "scenarioA_rows =
     [\<lparr>task = mkTask 1 ''Design'' None [] (Some ''2024-01-01'') (Some ''2024-01-05''),
       depth = 0, number = ''1''\<rparr>,
      \<lparr>task = mkTask 2 ''Draft'' (Some 1) [] (Some ''2024-01-02'') (Some ''2024-01-03''),
       depth = 1, number = ''1.1''\<rparr>]"

text \<open>Two tasks that are each other's parent, a task that is its own parent, and a root.\<close>

definition ping :: Task where
  "ping = mkTask 10 ''Ping'' (Some 11) [] (Some ''2024-01-01'') None"

definition pong :: Task where
  "pong = mkTask 11 ''Pong'' (Some 10) [] (Some ''2024-01-02'') None"

definition solo :: Task where
  "solo = mkTask 12 ''Solo'' None [] (Some ''2024-01-03'') None"

definition selfParent :: Task where
  "selfParent = mkTask 13 ''Self'' (Some 13) [] (Some ''2024-01-05'') None"

definition cyclic :: "Task list" where
  "cyclic = [ping, pong, solo, selfParent]"

text \<open>Two roots; the second one has three children, the second of which has a child.\<close>

definition plan :: Task where
  "plan = mkTask 1 ''Plan'' None [] (Some ''2024-01-01'') None"

definition build :: Task where
  "build = mkTask 2 ''Build'' None [] (Some ''2024-01-02'') None"

definition base :: Task where
  "base = mkTask 5 ''Base'' (Some 2) [] (Some ''2024-01-01'') None"

definition walls :: Task where
  "walls = mkTask 3 ''Walls'' (Some 2) [] (Some ''2024-01-02'') None"

definition bricks :: Task where
  "bricks = mkTask 6 ''Bricks'' (Some 3) [] (Some ''2024-01-02'') None"

definition roof :: Task where
  "roof = mkTask 4 ''Roof'' (Some 2) [] (Some ''2024-01-03'') None"

definition outline :: "Task list" where
  "outline = [build, plan, walls, roof, base, bricks]"

definition outline_rows :: "TaskRow list" where
  "outline_rows =
     [\<lparr>task = plan, depth = 0, number = ''1''\<rparr>,
      \<lparr>task = build, depth = 0, number = ''2''\<rparr>,
      \<lparr>task = base, depth = 1, number = ''2.1''\<rparr>,
      \<lparr>task = walls, depth = 1, number = ''2.2''\<rparr>,
      \<lparr>task = bricks, depth = 2, number = ''2.2.1''\<rparr>,
      \<lparr>task = roof, depth = 1, number = ''2.3''\<rparr>]"

text \<open>
  A task that depends on its parent and on the orphan, and the orphan, which depends
  on a task of the outline.
\<close>

definition design :: Task where
  "design = mkTask 1 ''Design'' None [] (Some ''2024-01-01'') (Some ''2024-01-05'')"

definition draft :: Task where
  "draft = mkTask 2 ''Draft'' (Some 1) [1, 5] (Some ''2024-01-02'') (Some ''2024-01-03'')"

definition scenarioD :: "Task list" where
  "scenarioD = [design, draft, orphan]"

definition scenarioD_rows :: "TaskRow list" where
  "scenarioD_rows =
     [\<lparr>task = design, depth = 0, number = ''1''\<rparr>,
      \<lparr>task = draft, depth = 1, number = ''1.1''\<rparr>]"

section \<open>Notions used to state the properties of the dependency lines\<close>

text \<open>The pair of identifiers that the key of a line is built from.\<close>

definition linePair :: "DependencyLine \<Rightarrow> int \<times> int" where
  "linePair l = (dependencyId l, dependentId l)"

text \<open>
  \<open>resolves parse rows idx d\<close>: the lookups that \<open>dependencyStep\<close> makes for the
  dependency identifier \<open>d\<close> all succeed.
\<close>

definition resolves ::
  "(string \<Rightarrow> int option) \<Rightarrow> TaskRow list \<Rightarrow> (int \<rightharpoonup> nat) \<Rightarrow> int \<Rightarrow> bool" where
  "resolves parse rows idx d \<longleftrightarrow>
     (\<exists>di dr. idx d = Some di \<and> nth_opt rows di = Some dr \<and>
              getTaskRange parse (task dr) \<noteq> None)"

text \<open>The pairs of the lines that one row contributes.\<close>

definition rowPairs ::
  "(string \<Rightarrow> int option) \<Rightarrow> TaskRow list \<Rightarrow> (int \<rightharpoonup> nat) \<Rightarrow> TaskRow \<Rightarrow> (int \<times> int) set" where
  "rowPairs parse rows idx row =
     {(d, id' (task row)) |d. getTaskRange parse (task row) \<noteq> None \<and>
                              d \<in> set (dependsOn (task row)) \<and> resolves parse rows idx d}"

section \<open>Properties of the timeline range\<close>

lemma foldl_min_Min: "foldl min (a::int) xs = Min (set (a # xs))"
proof (induction xs arbitrary: a)
  case Nil then show ?case by simp
next
  case (Cons x xs)
  have "Min (set (a # x # xs)) = Min (insert (min a x) (set xs))"
    by (cases "xs = []") (simp_all add: min.assoc)
  then show ?case using Cons by simp
qed

lemma foldl_max_Max: "foldl max (a::int) xs = Max (set (a # xs))"
proof (induction xs arbitrary: a)
  case Nil then show ?case by simp
next
  case (Cons x xs)
  have "Max (set (a # x # xs)) = Max (insert (max a x) (set xs))"
    by (cases "xs = []") (simp_all add: max.assoc)
  then show ?case using Cons by simp
qed

lemma getTaskRange_None:
  "getTaskRange parse t = None \<longleftrightarrow> parseDate parse (startDate t) = None"
  by (simp add: getTaskRange_def Let_def split: option.splits)

lemma getTaskRange_Some:
  "parseDate parse (startDate t) = Some s \<Longrightarrow>
   getTaskRange parse t =
     Some \<lparr>start = s, end' = (case parseDate parse (dueDate t) of None \<Rightarrow> s | Some d \<Rightarrow> d)\<rparr>"
  by (simp add: getTaskRange_def Let_def split: option.splits)

lemma set_taskRanges:
  "set (taskRanges parse tasks) = {r. \<exists>t\<in>set tasks. getTaskRange parse t = Some r}"
  by (induction tasks) (auto simp: taskRanges_def split: option.splits)

lemma timelineRange_None:
  "timelineRange parse tasks = None \<longleftrightarrow> taskRanges parse tasks = []"
  by (simp add: timelineRange_def Let_def split: list.splits)

lemma timelineRange_Some:
  assumes "timelineRange parse tasks = Some R"
  shows "startMs R = Min (start ` set (taskRanges parse tasks))"
    and "endMs R = Max (end' ` set (taskRanges parse tasks))"
    and "range_start R = startMs R" and "range_end R = endMs R"
    and "taskRanges parse tasks \<noteq> []"
  using assms
  by (auto simp: timelineRange_def Let_def foldl_min_Min foldl_max_Max split: list.splits)

text \<open>
  Claim C4. The interval of a task is its resolved start and its resolved due date, the
  start standing in for a due date that does not resolve; a task whose start does not
  resolve has no interval, whatever its due date; the timeline range is absent exactly
  when no task has an interval, and otherwise runs from the least interval start to the
  greatest interval end.
\<close>

theorem timelineRange_spans_contributing:
  "(parseDate parse (startDate t) = None \<longrightarrow> getTaskRange parse t = None) \<and>
   (\<forall>s. parseDate parse (startDate t) = Some s \<longrightarrow>
        getTaskRange parse t =
          Some \<lparr>start = s,
                end' = (case parseDate parse (dueDate t) of None \<Rightarrow> s | Some d \<Rightarrow> d)\<rparr>) \<and>
   (timelineRange parse tasks = None \<longleftrightarrow>
      (\<forall>u\<in>set tasks. parseDate parse (startDate u) = None)) \<and>
   (\<forall>R. timelineRange parse tasks = Some R \<longrightarrow>
        startMs R = Min {start r |r u. u \<in> set tasks \<and> getTaskRange parse u = Some r} \<and>
        endMs R = Max {end' r |r u. u \<in> set tasks \<and> getTaskRange parse u = Some r} \<and>
        range_start R = startMs R \<and> range_end R = endMs R)"
proof -
  have img1: "{start r |r u. u \<in> set tasks \<and> getTaskRange parse u = Some r}
                = start ` set (taskRanges parse tasks)"
    by (auto simp: set_taskRanges)
  have img2: "{end' r |r u. u \<in> set tasks \<and> getTaskRange parse u = Some r}
                = end' ` set (taskRanges parse tasks)"
    by (auto simp: set_taskRanges)
  have none: "timelineRange parse tasks = None \<longleftrightarrow>
      (\<forall>u\<in>set tasks. parseDate parse (startDate u) = None)"
  proof -
    have "taskRanges parse tasks = [] \<longleftrightarrow> set (taskRanges parse tasks) = {}" by simp
    also have "\<dots> \<longleftrightarrow> (\<forall>u\<in>set tasks. getTaskRange parse u = None)"
    proof
      assume e: "set (taskRanges parse tasks) = {}"
      show "\<forall>u\<in>set tasks. getTaskRange parse u = None"
      proof
        fix u assume "u \<in> set tasks"
        then show "getTaskRange parse u = None"
          using e by (cases "getTaskRange parse u") (auto simp: set_taskRanges)
      qed
    next
      assume "\<forall>u\<in>set tasks. getTaskRange parse u = None"
      then show "set (taskRanges parse tasks) = {}" by (auto simp: set_taskRanges)
    qed
    finally show ?thesis by (simp add: timelineRange_None getTaskRange_None)
  qed
  have some: "\<forall>R. timelineRange parse tasks = Some R \<longrightarrow>
        startMs R = Min {start r |r u. u \<in> set tasks \<and> getTaskRange parse u = Some r} \<and>
        endMs R = Max {end' r |r u. u \<in> set tasks \<and> getTaskRange parse u = Some r} \<and>
        range_start R = startMs R \<and> range_end R = endMs R"
    unfolding img1 img2 using timelineRange_Some [of parse tasks] by blast
  have a: "parseDate parse (startDate t) = None \<longrightarrow> getTaskRange parse t = None"
    by (simp add: getTaskRange_None)
  have b: "\<forall>s. parseDate parse (startDate t) = Some s \<longrightarrow>
        getTaskRange parse t =
          Some \<lparr>start = s,
                end' = (case parseDate parse (dueDate t) of None \<Rightarrow> s | Some d \<Rightarrow> d)\<rparr>"
    by (simp add: getTaskRange_Some)
  show ?thesis using a b none some by blast
qed

theorem timelineRange_spans_contributing_witness:
  "getTaskRange isoDates dueOnly = None \<and>
   getTaskRange isoDates (hd scenarioA) =
     Some \<lparr>start = 1704067200000, end' = 1704412800000\<rparr> \<and>
   timelineRange isoDates [dueOnly] = None \<and>
   timelineRange isoDates (dueOnly # scenarioA) =
     Some \<lparr>range_start = 1704067200000, range_end = 1704412800000,
           startMs = 1704067200000, endMs = 1704412800000\<rparr>"
  using timelineRange_spans_contributing [of isoDates dueOnly "[dueOnly]"]
    timelineRange_spans_contributing [of isoDates "hd scenarioA" "dueOnly # scenarioA"]
  by (simp add: scenarioA_def dueOnly_def mkTask_def isoDates_def parseDate_def
      getTaskRange_def timelineRange_def taskRanges_def)

text \<open>
  Claim C1, as stated, fails: a single task that is due before it starts gives a range
  whose end lies before its start.
\<close>

theorem timelineRange_start_le_end_counterexample:
  "timelineRange isoDates [lateStart] =
     Some \<lparr>range_start = 1704844800000, range_end = 1704412800000,
           startMs = 1704844800000, endMs = 1704412800000\<rparr> \<and>
   endMs \<lparr>range_start = 1704844800000, range_end = 1704412800000,
           startMs = 1704844800000, endMs = 1704412800000\<rparr>
     < startMs \<lparr>range_start = 1704844800000, range_end = 1704412800000,
           startMs = 1704844800000, endMs = 1704412800000\<rparr>"
  by (simp add: lateStart_def mkTask_def isoDates_def parseDate_def
      getTaskRange_def timelineRange_def taskRanges_def)

text \<open>
  Claim C1, amended. Whenever the range is present the divisor \<open>rangeMs\<close> is at least
  one millisecond, hence never zero; and the start of the range is at most its end as
  soon as one contributing task is not due before it starts.
\<close>

theorem rangeMs_positive:
  "timelineRange parse tasks = Some R \<Longrightarrow>
     1 \<le> rangeMs R \<and> rangeMs R \<noteq> 0 \<and> startMs R + 1 \<le> startMs R + rangeMs R \<and>
     ((\<exists>u\<in>set tasks. \<exists>r. getTaskRange parse u = Some r \<and> start r \<le> end' r)
        \<longrightarrow> startMs R \<le> endMs R)"
proof -
  assume R: "timelineRange parse tasks = Some R"
  have pos: "1 \<le> rangeMs R" by (simp add: rangeMs_def)
  have ord: "startMs R \<le> endMs R"
    if u: "u \<in> set tasks" and r: "getTaskRange parse u = Some r" and le: "start r \<le> end' r"
    for u r
  proof -
    have mem: "r \<in> set (taskRanges parse tasks)" using u r by (auto simp: set_taskRanges)
    have "startMs R \<le> start r"
      using mem by (simp add: timelineRange_Some(1) [OF R])
    moreover have "end' r \<le> endMs R"
      using mem by (simp add: timelineRange_Some(2) [OF R])
    ultimately show ?thesis using le by linarith
  qed
  show ?thesis using pos ord by auto
qed

theorem rangeMs_positive_witness:
  "timelineRange isoDates [lateStart] =
     Some \<lparr>range_start = 1704844800000, range_end = 1704412800000,
           startMs = 1704844800000, endMs = 1704412800000\<rparr> \<and>
   rangeMs \<lparr>range_start = 1704844800000, range_end = 1704412800000,
           startMs = 1704844800000, endMs = 1704412800000\<rparr> = 1 \<and>
   (\<exists>R. timelineRange isoDates scenarioA = Some R \<and> startMs R \<le> endMs R)"
proof -
  have a: "timelineRange isoDates [lateStart] =
     Some \<lparr>range_start = 1704844800000, range_end = 1704412800000,
           startMs = 1704844800000, endMs = 1704412800000\<rparr>"
    by (simp add: lateStart_def mkTask_def isoDates_def parseDate_def
      getTaskRange_def timelineRange_def taskRanges_def)
  have b: "timelineRange isoDates scenarioA =
     Some \<lparr>range_start = 1704067200000, range_end = 1704412800000,
           startMs = 1704067200000, endMs = 1704412800000\<rparr>"
    by (simp add: scenarioA_def mkTask_def isoDates_def parseDate_def
      getTaskRange_def timelineRange_def taskRanges_def)
  have c: "getTaskRange isoDates (hd scenarioA) =
     Some \<lparr>start = 1704067200000, end' = 1704412800000\<rparr>"
    by (simp add: scenarioA_def mkTask_def isoDates_def parseDate_def getTaskRange_def)
  have d: "hd scenarioA \<in> set scenarioA" by (simp add: scenarioA_def)
  show ?thesis
    using rangeMs_positive [OF a] rangeMs_positive [OF b] a b c d
    by (auto simp: rangeMs_def)
qed

section \<open>Ticks, bars and the comparison of tasks\<close>

text \<open>
  Claim C9. With a range present there are exactly five ticks, at the positions 0, 25,
  50, 75 and 100 percent, labelled with the dates at the fractions 0, 1/4, 2/4, 3/4
  and 1 of the duration \<open>rangeMs\<close> after the start of the range; with the range absent
  there is no tick.
\<close>

theorem timelineTicks_positions:
  "timelineTicks shortLabel None = [] \<and>
   length (timelineTicks shortLabel (Some R)) = 5 \<and>
   map position (timelineTicks shortLabel (Some R)) = [0, 25, 50, 75, 100] \<and>
   map label (timelineTicks shortLabel (Some R)) =
     map (\<lambda>i. shortLabel (newDate (of_int (startMs R) + of_int (rangeMs R) * (of_nat i / 4))))
       [0, 1, 2, 3, 4]"
  by (simp add: timelineTicks_def tick_loop.simps tickCount_def Let_def formatShortDate_def)

lemma bar_width_ge_1: "style (bar parse tr x) = Some b \<Longrightarrow> 1 \<le> width b"
proof (cases x)
  case (Pair row index)
  assume s: "style (bar parse tr x) = Some b"
  show ?thesis
  proof (cases "getTaskRange parse (task row)")
    case None
    then show ?thesis using s Pair by (simp add: bar_def)
  next
    case (Some rg)
    show ?thesis
    proof (cases tr)
      case None
      then show ?thesis using s Pair Some by (simp add: bar_def)
    next
      case (Some R)
      then show ?thesis using s Pair \<open>getTaskRange parse (task row) = Some rg\<close>
        by (auto simp: bar_def Let_def)
    qed
  qed
qed

text \<open>
  Claim C10. For a row whose task has an interval, with the range present, the bar has
  the left offset \<open>(start - startMs) / rangeMs * 100\<close> and the width
  \<open>max ((end - start) / rangeMs * 100) 1\<close>; and every bar that is given a geometry,
  whatever the rows and the range, is at least 1 percent wide.
\<close>

theorem bar_geometry:
  "(\<forall>i<length taskRows. \<forall>rg. getTaskRange parse (task (taskRows ! i)) = Some rg \<longrightarrow>
      (\<exists>b. style (gantt_bars parse (Some R) taskRows ! i) = Some b \<and>
           left b = of_int (start rg - startMs R) / of_int (rangeMs R) * 100 \<and>
           width b = max (of_int (end' rg - start rg) / of_int (rangeMs R) * 100) 1)) \<and>
   (\<forall>x\<in>set (gantt_bars parse tr taskRows). \<forall>b. style x = Some b \<longrightarrow> 1 \<le> width b)"
proof -
  have one: "\<exists>b. style (gantt_bars parse (Some R) taskRows ! i) = Some b \<and>
           left b = of_int (start rg - startMs R) / of_int (rangeMs R) * 100 \<and>
           width b = max (of_int (end' rg - start rg) / of_int (rangeMs R) * 100) 1"
    if "i < length taskRows" "getTaskRange parse (task (taskRows ! i)) = Some rg" for i rg
    using that by (simp add: gantt_bars_def bar_def Let_def)
  have two: "1 \<le> width b"
    if x: "x \<in> set (gantt_bars parse tr taskRows)" and s: "style x = Some b" for x b
  proof -
    from x obtain y where "x = bar parse tr y" unfolding gantt_bars_def by auto
    then show ?thesis using s bar_width_ge_1 by blast
  qed
  show ?thesis using one two by blast
qed

text \<open>
  The milestone of the first scenario starts and ends on the same day: its bar is
  1 percent wide.
\<close>

theorem bar_geometry_witness:
  "style (gantt_bars isoDates (timelineRange isoDates scenarioA)
            [\<lparr>task = hd scenarioA, depth = 0, number = ''1''\<rparr>,
             \<lparr>task = milestone, depth = 1, number = ''1.1''\<rparr>] ! 1)
     = Some \<lparr>top' = 64, left = 50, width = 1\<rparr> \<and>
   (\<exists>b. style (gantt_bars isoDates (timelineRange isoDates scenarioA)
            [\<lparr>task = hd scenarioA, depth = 0, number = ''1''\<rparr>,
             \<lparr>task = milestone, depth = 1, number = ''1.1''\<rparr>] ! 1) = Some b \<and>
        left b = 50 \<and> width b = 1 \<and> 1 \<le> width b)"
proof -
  let ?rows = "[\<lparr>task = hd scenarioA, depth = 0, number = ''1''\<rparr>,
             \<lparr>task = milestone, depth = 1, number = ''1.1''\<rparr>]"
  let ?R = "\<lparr>range_start = 1704067200000, range_end = 1704412800000,
           startMs = 1704067200000, endMs = 1704412800000\<rparr>"
  have R: "timelineRange isoDates scenarioA = Some ?R"
    by (simp add: scenarioA_def mkTask_def isoDates_def parseDate_def
      getTaskRange_def timelineRange_def taskRanges_def)
  have g: "getTaskRange isoDates (task (?rows ! 1))
             = Some \<lparr>start = 1704240000000, end' = 1704240000000\<rparr>"
    by (simp add: milestone_def mkTask_def isoDates_def parseDate_def getTaskRange_def)
  have e: "style (gantt_bars isoDates (Some ?R) ?rows ! 1)
             = Some \<lparr>top' = 64, left = 50, width = 1\<rparr>"
    by code_simp
  have m: "gantt_bars isoDates (Some ?R) ?rows ! 1 \<in> set (gantt_bars isoDates (Some ?R) ?rows)"
    by (simp add: gantt_bars_def)
  from bar_geometry [of ?rows isoDates ?R "Some ?R"]
  have geo: "\<forall>i<length ?rows. \<forall>rg. getTaskRange isoDates (task (?rows ! i)) = Some rg \<longrightarrow>
      (\<exists>b. style (gantt_bars isoDates (Some ?R) ?rows ! i) = Some b \<and>
           left b = of_int (start rg - startMs ?R) / of_int (rangeMs ?R) * 100 \<and>
           width b = max (of_int (end' rg - start rg) / of_int (rangeMs ?R) * 100) 1)"
    and wide: "\<forall>x\<in>set (gantt_bars isoDates (Some ?R) ?rows).
                 \<forall>b. style x = Some b \<longrightarrow> 1 \<le> width b"
    by blast+
  have l: "(1::nat) < length ?rows" by simp
  from geo [rule_format, OF l g] obtain b where
    b: "style (gantt_bars isoDates (Some ?R) ?rows ! 1) = Some b"
    and lb: "left b = of_int (start \<lparr>start = 1704240000000, end' = 1704240000000\<rparr> - startMs ?R)
                  / of_int (rangeMs ?R) * 100"
    and wb: "width b = max (of_int (end' \<lparr>start = 1704240000000, end' = 1704240000000\<rparr>
                  - start \<lparr>start = 1704240000000, end' = 1704240000000\<rparr>)
                  / of_int (rangeMs ?R) * 100) 1"
    by blast
  have "left b = 50" using lb by (simp add: rangeMs_def)
  moreover have "width b = 1" using wb by (simp add: rangeMs_def)
  moreover have "1 \<le> width b" using wide m b by blast
  ultimately show ?thesis using e b R by simp
qed

lemma codeCompare_lexord:
  "codeCompare x y < 0 \<longleftrightarrow> (x, y) \<in> lexord {(c, d). (of_char c :: nat) < of_char d}"
  by (induction x y rule: codeCompare.induct) auto

lemma startKey_eq: "startKey parse a = startKey parse b \<longleftrightarrow>
   parseDate parse (startDate a) = parseDate parse (startDate b)"
  by (auto simp: startKey_def split: option.splits)

text \<open>
  Claim C3, amended. The comparison is negative (first task first) when the first task
  starts earlier, and when the first task has a resolvable start date and the second
  has none (its key is positive infinity); with equal start keys (both resolved to the
  same time, or both unresolved) the result is that of \<open>localeCompare\<close> on the two
  names: the task whose name comes first in the collation of the runtime comes first.
\<close>

theorem compareTasks_order:
  "(\<forall>x y. parseDate parse (startDate a) = Some x \<and> parseDate parse (startDate b) = Some y \<and> x < y
       \<longrightarrow> js_negative (compareTasks parse localeCompare a b) \<and>
           js_positive (compareTasks parse localeCompare b a)) \<and>
   (\<forall>x. parseDate parse (startDate a) = Some x \<and> parseDate parse (startDate b) = None
       \<longrightarrow> js_negative (compareTasks parse localeCompare a b) \<and>
           js_positive (compareTasks parse localeCompare b a)) \<and>
   (parseDate parse (startDate a) = parseDate parse (startDate b)
       \<longrightarrow> compareTasks parse localeCompare a b = Finite (localeCompare (name a) (name b)) \<and>
           (js_negative (compareTasks parse localeCompare a b)
              \<longleftrightarrow> localeCompare (name a) (name b) < 0) \<and>
           (js_positive (compareTasks parse localeCompare a b)
              \<longleftrightarrow> 0 < localeCompare (name a) (name b)))"
proof -
  have tie: "compareTasks parse localeCompare a b = Finite (localeCompare (name a) (name b))"
    if "parseDate parse (startDate a) = parseDate parse (startDate b)"
    using that by (simp add: compareTasks_def Let_def startKey_eq)
  have one: "js_negative (compareTasks parse localeCompare a b) \<and>
           js_positive (compareTasks parse localeCompare b a)"
    if "parseDate parse (startDate a) = Some x" "parseDate parse (startDate b) = Some y" "x < y"
    for x y
    using that by (simp add: compareTasks_def Let_def startKey_def)
  have two: "js_negative (compareTasks parse localeCompare a b) \<and>
           js_positive (compareTasks parse localeCompare b a)"
    if "parseDate parse (startDate a) = Some x" "parseDate parse (startDate b) = None"
    for x
    using that by (simp add: compareTasks_def Let_def startKey_def)
  show ?thesis using tie one two by simp
qed

text \<open>
  Scenario B: two roots with the same start date, named Alpha and Beta; Alpha comes
  first, and so does alpha. A scheduled task comes before an unscheduled one.
\<close>

theorem compareTasks_order_witness:
  "js_negative (compareTasks isoDates letterCollation (hd scenarioA) beta) \<and>
   js_negative (compareTasks isoDates letterCollation beta dueOnly) \<and>
   js_positive (compareTasks isoDates letterCollation dueOnly beta) \<and>
   compareTasks isoDates letterCollation alpha beta = Finite (- 1) \<and>
   js_negative (compareTasks isoDates letterCollation alpha beta) \<and>
   js_negative (compareTasks isoDates letterCollation lowerAlpha beta)"
proof -
  have c: "letterCollation ''Alpha'' ''Beta'' = - 1" "letterCollation ''alpha'' ''Beta'' = - 1"
    by code_simp+
  show ?thesis
    using compareTasks_order [of isoDates "hd scenarioA" beta letterCollation]
      compareTasks_order [of isoDates beta dueOnly letterCollation]
      compareTasks_order [of isoDates alpha beta letterCollation]
      compareTasks_order [of isoDates lowerAlpha beta letterCollation]
    by (simp add: c scenarioA_def alpha_def beta_def lowerAlpha_def dueOnly_def mkTask_def
        isoDates_def parseDate_def)
qed

text \<open>
  Claim C3, as stated, fails: of two tasks with the same start date and the names
  \<open>Beta\<close> and \<open>alpha\<close>, the case-sensitive lexicographic order puts \<open>Beta\<close> first
  (\<open>B\<close> has the smaller character code), but the comparison is positive and the sort
  puts \<open>alpha\<close> first.
\<close>

theorem compareTasks_tie_counterexample:
  "parseDate isoDates (startDate beta) = parseDate isoDates (startDate lowerAlpha) \<and>
   codeCompare (name beta) (name lowerAlpha) = - 1 \<and>
   compareTasks isoDates letterCollation beta lowerAlpha = Finite 1 \<and>
   js_positive (compareTasks isoDates letterCollation beta lowerAlpha) \<and>
   array_sort (compareTasks isoDates letterCollation) [beta, lowerAlpha] = [lowerAlpha, beta]"
  by code_simp

section \<open>Sorting, buckets and the row loop\<close>

lemma set_insert_sorted: "set (insert_sorted cmp x ys) = insert x (set ys)"
  by (induction ys) auto

lemma length_insert_sorted: "length (insert_sorted cmp x ys) = Suc (length ys)"
  by (induction ys) auto

lemma distinct_insert_sorted:
  "distinct (insert_sorted cmp x ys) \<longleftrightarrow> x \<notin> set ys \<and> distinct ys"
  by (induction ys) (auto simp: set_insert_sorted)

lemma set_array_sort: "set (array_sort cmp xs) = set xs"
  by (induction xs) (auto simp: array_sort_def set_insert_sorted)

lemma length_array_sort: "length (array_sort cmp xs) = length xs"
  by (induction xs) (auto simp: array_sort_def length_insert_sorted)

lemma distinct_array_sort: "distinct (array_sort cmp xs) \<longleftrightarrow> distinct xs"
proof (induction xs)
  case Nil then show ?case by (simp add: array_sort_def)
next
  case (Cons x xs)
  have "array_sort cmp (x # xs) = insert_sorted cmp x (array_sort cmp xs)"
    by (simp add: array_sort_def)
  then show ?case using Cons by (simp add: distinct_insert_sorted set_array_sort)
qed

lemma foldl_byParent_add:
  "foldl byParent_add m tasks k =
     (case m k of
        None \<Rightarrow> (if filter (\<lambda>t. parentTaskId t = k) tasks = [] then None
                 else Some (filter (\<lambda>t. parentTaskId t = k) tasks))
      | Some g \<Rightarrow> Some (g @ filter (\<lambda>t. parentTaskId t = k) tasks))"
proof (induction tasks arbitrary: m)
  case Nil then show ?case by (simp split: option.splits)
next
  case (Cons t tasks)
  have "foldl byParent_add m (t # tasks) k = foldl byParent_add (byParent_add m t) tasks k"
    by simp
  also have "\<dots> = (case byParent_add m t k of
        None \<Rightarrow> (if filter (\<lambda>t. parentTaskId t = k) tasks = [] then None
                 else Some (filter (\<lambda>t. parentTaskId t = k) tasks))
      | Some g \<Rightarrow> Some (g @ filter (\<lambda>t. parentTaskId t = k) tasks))"
    by (rule Cons.IH)
  also have "\<dots> = (case m k of
        None \<Rightarrow> (if filter (\<lambda>t. parentTaskId t = k) (t # tasks) = [] then None
                 else Some (filter (\<lambda>t. parentTaskId t = k) (t # tasks)))
      | Some g \<Rightarrow> Some (g @ filter (\<lambda>t. parentTaskId t = k) (t # tasks)))"
    by (auto simp: byParent_add_def Let_def split: option.splits)
  finally show ?case .
qed

lemma getOrEmpty_byParent:
  "getOrEmpty (byParent tasks) k = filter (\<lambda>t. parentTaskId t = k) tasks"
  by (simp add: getOrEmpty_def byParent_def foldl_byParent_add)

lemma set_sortedBucket:
  "set (sortedBucket (byParent tasks) cmp k) = {t \<in> set tasks. parentTaskId t = k}"
  by (auto simp: sortedBucket_def set_array_sort getOrEmpty_byParent)

lemma distinct_sortedBucket:
  "distinct tasks \<Longrightarrow> distinct (sortedBucket (byParent tasks) cmp k)"
  by (simp add: sortedBucket_def distinct_array_sort getOrEmpty_byParent)

lemma forEach_total:
  "(\<And>x i s. x \<in> set xs \<Longrightarrow> \<exists>s'. f x i s = Some s') \<Longrightarrow> \<exists>s'. forEach f xs i s = Some s'"
proof (induction xs arbitrary: i s)
  case Nil then show ?case by simp
next
  case (Cons x xs)
  obtain s1 where s1: "f x i s = Some s1" using Cons.prems [of x i s] by auto
  have "\<exists>s'. forEach f xs (Suc i) s1 = Some s'"
    by (rule Cons.IH) (simp add: Cons.prems)
  then show ?case by (simp add: s1)
qed

lemma forEach_mono:
  "forEach f xs i s = Some s' \<Longrightarrow>
   (\<And>x j u u'. x \<in> set xs \<Longrightarrow> f x j u = Some u' \<Longrightarrow> g x j u = Some u') \<Longrightarrow>
   forEach g xs i s = Some s'"
proof (induction xs arbitrary: i s)
  case Nil then show ?case by simp
next
  case (Cons x xs)
  from Cons.prems(1) obtain s1 where s1: "f x i s = Some s1"
    and rest: "forEach f xs (Suc i) s1 = Some s'"
    by (auto split: option.splits)
  have g1: "g x i s = Some s1" using Cons.prems(2) s1 by simp
  have "forEach g xs (Suc i) s1 = Some s'"
    by (rule Cons.IH [OF rest]) (simp add: Cons.prems(2))
  then show ?case by (simp add: g1)
qed

lemma visit_mono:
  "visit n bp cmp t d num rows = Some rows' \<Longrightarrow> n \<le> m \<Longrightarrow>
   visit m bp cmp t d num rows = Some rows'"
proof (induction n arbitrary: m t d num rows rows')
  case 0 then show ?case by simp
next
  case (Suc n)
  then obtain m' where m: "m = Suc m'" and le: "n \<le> m'" by (cases m) auto
  show ?case
    using Suc.prems(1) unfolding m
    by (simp add: Let_def) (erule forEach_mono, rule Suc.IH, assumption, rule le)
qed

section \<open>The rows pushed by one visit\<close>

lemma segOK_single: "segOK bp cmp t d num [\<lparr>task = t, depth = d, number = num\<rparr>]"
  by (simp add: segOK_def)

lemma segOK_append:
  assumes S: "segOK bp cmp t d num seg"
    and C: "segOK bp cmp c (d + 1) (num @ ''.'' @ string_of_nat (a + 1)) s"
    and a: "a < length (sortedBucket bp cmp (Some (id' t)))"
    and c: "sortedBucket bp cmp (Some (id' t)) ! a = c"
  shows "segOK bp cmp t d num (seg @ s)"
proof -
  from S have ne: "seg \<noteq> []" and hd: "seg ! 0 = \<lparr>task = t, depth = d, number = num\<rparr>"
    and rest: "\<And>j. j < length seg \<Longrightarrow> 0 < j \<Longrightarrow>
        d < depth (seg ! j) \<and>
        (\<exists>i < j. childRow bp cmp (seg ! i) (seg ! j) \<and>
                 (\<forall>k. i < k \<and> k < j \<longrightarrow> depth (seg ! i) < depth (seg ! k)))"
    by (simp_all add: segOK_def)
  from C have sne: "s \<noteq> []"
    and shd: "s ! 0 = \<lparr>task = c, depth = d + 1, number = num @ ''.'' @ string_of_nat (a + 1)\<rparr>"
    and srest: "\<And>j. j < length s \<Longrightarrow> 0 < j \<Longrightarrow>
        d + 1 < depth (s ! j) \<and>
        (\<exists>i < j. childRow bp cmp (s ! i) (s ! j) \<and>
                 (\<forall>k. i < k \<and> k < j \<longrightarrow> depth (s ! i) < depth (s ! k)))"
    by (simp_all add: segOK_def)
  have len: "0 < length seg" using ne by simp
  have main: "d < depth ((seg @ s) ! j) \<and>
        (\<exists>i < j. childRow bp cmp ((seg @ s) ! i) ((seg @ s) ! j) \<and>
                 (\<forall>k. i < k \<and> k < j \<longrightarrow> depth ((seg @ s) ! i) < depth ((seg @ s) ! k)))"
    if j: "j < length (seg @ s)" and j0: "0 < j" for j
  proof -
    consider (old) "j < length seg" | (head) "j = length seg" | (new) "length seg < j"
      by linarith
    then show ?thesis
    proof cases
      case old
      from rest [OF old j0] obtain i where i: "i < j"
        and cr: "childRow bp cmp (seg ! i) (seg ! j)"
        and btw: "\<forall>k. i < k \<and> k < j \<longrightarrow> depth (seg ! i) < depth (seg ! k)"
        and dj: "d < depth (seg ! j)" by blast
      have "childRow bp cmp ((seg @ s) ! i) ((seg @ s) ! j)"
        using cr i old by (simp add: nth_append)
      moreover have "\<forall>k. i < k \<and> k < j \<longrightarrow> depth ((seg @ s) ! i) < depth ((seg @ s) ! k)"
        using btw i old by (simp add: nth_append)
      moreover have "d < depth ((seg @ s) ! j)" using dj old by (simp add: nth_append)
      ultimately show ?thesis using i by blast
    next
      case head
      have rj: "(seg @ s) ! j = s ! 0" using head by (simp add: nth_append)
      have r0: "(seg @ s) ! 0 = seg ! 0" using len by (simp add: nth_append)
      have cr: "childRow bp cmp ((seg @ s) ! 0) ((seg @ s) ! j)"
        unfolding rj r0 hd shd childRow_def using a c by auto
      have btw: "\<forall>k. 0 < k \<and> k < j \<longrightarrow> depth ((seg @ s) ! 0) < depth ((seg @ s) ! k)"
      proof (intro allI impI)
        fix k assume k: "0 < k \<and> k < j"
        then have "k < length seg" using head by simp
        then show "depth ((seg @ s) ! 0) < depth ((seg @ s) ! k)"
          using rest [of k] k hd r0 by (simp add: nth_append)
      qed
      have "d < depth ((seg @ s) ! j)" unfolding rj shd by simp
      then show ?thesis using cr btw j0 by blast
    next
      case new
      define j' where "j' = j - length seg"
      have j': "j' < length s" "0 < j'" and jj: "j = length seg + j'"
        using new j by (simp_all add: j'_def)
      from srest [OF j'] obtain i where i: "i < j'"
        and cr: "childRow bp cmp (s ! i) (s ! j')"
        and btw: "\<forall>k. i < k \<and> k < j' \<longrightarrow> depth (s ! i) < depth (s ! k)"
        and dj: "d + 1 < depth (s ! j')" by blast
      have n1: "(seg @ s) ! j = s ! j'" unfolding jj by simp
      have n2: "(seg @ s) ! (length seg + i) = s ! i" by simp
      have b: "\<forall>k. length seg + i < k \<and> k < j \<longrightarrow>
                 depth ((seg @ s) ! (length seg + i)) < depth ((seg @ s) ! k)"
      proof (intro allI impI)
        fix k assume k: "length seg + i < k \<and> k < j"
        then have "i < k - length seg \<and> k - length seg < j'" using jj by linarith
        then have "depth (s ! i) < depth (s ! (k - length seg))" using btw by blast
        moreover have "(seg @ s) ! k = s ! (k - length seg)"
          using k by (simp add: nth_append)
        ultimately show "depth ((seg @ s) ! (length seg + i)) < depth ((seg @ s) ! k)"
          unfolding n2 by simp
      qed
      have "length seg + i < j" using i jj by simp
      moreover have "childRow bp cmp ((seg @ s) ! (length seg + i)) ((seg @ s) ! j)"
        unfolding n1 n2 by (rule cr)
      moreover have "d < depth ((seg @ s) ! j)" unfolding n1 using dj by simp
      ultimately show ?thesis using b by blast
    qed
  qed
  have "(seg @ s) ! 0 = \<lparr>task = t, depth = d, number = num\<rparr>"
    using hd len by (simp add: nth_append)
  then show ?thesis unfolding segOK_def using ne main by simp
qed

lemma forEach_children_segOK:
  assumes IH: "\<And>c i R R'.
      visit n bp cmp c (d + 1) (num @ ''.'' @ string_of_nat (i + 1)) R = Some R' \<Longrightarrow>
      \<exists>s. R' = R @ s \<and> segOK bp cmp c (d + 1) (num @ ''.'' @ string_of_nat (i + 1)) s"
  shows "forEach (\<lambda>child index rs.
            visit n bp cmp child (d + 1) (num @ ''.'' @ string_of_nat (index + 1)) rs)
           cs a (rows @ seg) = Some rows' \<Longrightarrow>
         segOK bp cmp t d num seg \<Longrightarrow>
         cs = drop a (sortedBucket bp cmp (Some (id' t))) \<Longrightarrow>
         \<exists>seg'. rows' = rows @ seg' \<and> segOK bp cmp t d num seg'"
proof (induction cs arbitrary: a seg)
  case Nil
  then show ?case by auto
next
  case (Cons c cs)
  let ?B = "sortedBucket bp cmp (Some (id' t))"
  from Cons.prems(3) have a: "a < length ?B"
    by (metis drop_all list.distinct(1) not_le_imp_less)
  have ca: "?B ! a = c" and cs: "cs = drop (Suc a) ?B"
    using Cons.prems(3) a by (simp_all add: Cons_nth_drop_Suc [symmetric])
  from Cons.prems(1) obtain R1 where
    v: "visit n bp cmp c (d + 1) (num @ ''.'' @ string_of_nat (a + 1)) (rows @ seg) = Some R1"
    and rest: "forEach (\<lambda>child index rs.
            visit n bp cmp child (d + 1) (num @ ''.'' @ string_of_nat (index + 1)) rs)
           cs (Suc a) R1 = Some rows'"
    by (auto split: option.splits)
  from IH [OF v] obtain s where R1: "R1 = (rows @ seg) @ s"
    and s: "segOK bp cmp c (d + 1) (num @ ''.'' @ string_of_nat (a + 1)) s" by blast
  have ok: "segOK bp cmp t d num (seg @ s)"
    by (rule segOK_append [OF Cons.prems(2) s a ca])
  show ?case
    by (rule Cons.IH [OF _ ok cs]) (use rest R1 in simp)
qed

lemma visit_segOK:
  "visit n bp cmp t d num rows = Some rows' \<Longrightarrow>
   \<exists>seg. rows' = rows @ seg \<and> segOK bp cmp t d num seg"
proof (induction n arbitrary: t d num rows rows')
  case 0 then show ?case by simp
next
  case (Suc n)
  have fe: "forEach (\<lambda>child index rs.
            visit n bp cmp child (d + 1) (num @ ''.'' @ string_of_nat (index + 1)) rs)
           (sortedBucket bp cmp (Some (id' t))) 0
           (rows @ [\<lparr>task = t, depth = d, number = num\<rparr>]) = Some rows'"
    using Suc.prems by (simp add: Let_def)
  show ?case
    by (rule forEach_children_segOK [OF Suc.IH fe segOK_single]) simp_all
qed

section \<open>The rows of the whole outline\<close>

lemma rowsOK_Nil: "rowsOK bp cmp []"
  by (simp add: rowsOK_def)

lemma rowsOK_append:
  assumes R: "rowsOK bp cmp rows"
    and S: "segOK bp cmp r 0 (string_of_nat (a + 1)) seg"
    and a: "a < length (sortedBucket bp cmp None)"
    and r: "sortedBucket bp cmp None ! a = r"
  shows "rowsOK bp cmp (rows @ seg)"
proof -
  from S have shd: "seg ! 0 = \<lparr>task = r, depth = 0, number = string_of_nat (a + 1)\<rparr>"
    and srest: "\<And>j. j < length seg \<Longrightarrow> 0 < j \<Longrightarrow>
        (\<exists>i < j. childRow bp cmp (seg ! i) (seg ! j) \<and>
                 (\<forall>k. i < k \<and> k < j \<longrightarrow> depth (seg ! i) < depth (seg ! k)))"
    by (simp_all add: segOK_def)
  have main: "(\<exists>a < length (sortedBucket bp cmp None).
            sortedBucket bp cmp None ! a = task ((rows @ seg) ! j) \<and>
            number ((rows @ seg) ! j) = string_of_nat (a + 1) \<and> depth ((rows @ seg) ! j) = 0) \<or>
        (\<exists>i < j. childRow bp cmp ((rows @ seg) ! i) ((rows @ seg) ! j) \<and>
                 (\<forall>k. i < k \<and> k < j \<longrightarrow> depth ((rows @ seg) ! i) < depth ((rows @ seg) ! k)))"
    if j: "j < length (rows @ seg)" for j
  proof -
    consider (old) "j < length rows" | (head) "j = length rows" | (new) "length rows < j"
      by linarith
    then show ?thesis
    proof cases
      case old
      from R old have "(\<exists>a < length (sortedBucket bp cmp None).
            sortedBucket bp cmp None ! a = task (rows ! j) \<and>
            number (rows ! j) = string_of_nat (a + 1) \<and> depth (rows ! j) = 0) \<or>
        (\<exists>i < j. childRow bp cmp (rows ! i) (rows ! j) \<and>
                 (\<forall>k. i < k \<and> k < j \<longrightarrow> depth (rows ! i) < depth (rows ! k)))"
        unfolding rowsOK_def by blast
      then show ?thesis
      proof
        assume "\<exists>a < length (sortedBucket bp cmp None).
            sortedBucket bp cmp None ! a = task (rows ! j) \<and>
            number (rows ! j) = string_of_nat (a + 1) \<and> depth (rows ! j) = 0"
        then show ?thesis using old by (simp add: nth_append)
      next
        assume "\<exists>i < j. childRow bp cmp (rows ! i) (rows ! j) \<and>
                 (\<forall>k. i < k \<and> k < j \<longrightarrow> depth (rows ! i) < depth (rows ! k))"
        then obtain i where i: "i < j" and cr: "childRow bp cmp (rows ! i) (rows ! j)"
          and btw: "\<forall>k. i < k \<and> k < j \<longrightarrow> depth (rows ! i) < depth (rows ! k)" by blast
        have "childRow bp cmp ((rows @ seg) ! i) ((rows @ seg) ! j)"
          using cr i old by (simp add: nth_append)
        moreover have "\<forall>k. i < k \<and> k < j \<longrightarrow>
            depth ((rows @ seg) ! i) < depth ((rows @ seg) ! k)"
          using btw i old by (simp add: nth_append)
        ultimately show ?thesis using i by blast
      qed
    next
      case head
      have "(rows @ seg) ! j = seg ! 0" using head by (simp add: nth_append)
      then show ?thesis using shd a r by auto
    next
      case new
      define j' where "j' = j - length rows"
      have j': "j' < length seg" "0 < j'" and jj: "j = length rows + j'"
        using new j by (simp_all add: j'_def)
      from srest [OF j'] obtain i where i: "i < j'"
        and cr: "childRow bp cmp (seg ! i) (seg ! j')"
        and btw: "\<forall>k. i < k \<and> k < j' \<longrightarrow> depth (seg ! i) < depth (seg ! k)" by blast
      have n1: "(rows @ seg) ! j = seg ! j'" unfolding jj by simp
      have n2: "(rows @ seg) ! (length rows + i) = seg ! i" by simp
      have b: "\<forall>k. length rows + i < k \<and> k < j \<longrightarrow>
                 depth ((rows @ seg) ! (length rows + i)) < depth ((rows @ seg) ! k)"
      proof (intro allI impI)
        fix k assume k: "length rows + i < k \<and> k < j"
        then have "i < k - length rows \<and> k - length rows < j'" using jj by linarith
        then have "depth (seg ! i) < depth (seg ! (k - length rows))" using btw by blast
        moreover have "(rows @ seg) ! k = seg ! (k - length rows)"
          using k by (simp add: nth_append)
        ultimately show "depth ((rows @ seg) ! (length rows + i)) < depth ((rows @ seg) ! k)"
          unfolding n2 by simp
      qed
      have "length rows + i < j" using i jj by simp
      moreover have "childRow bp cmp ((rows @ seg) ! (length rows + i)) ((rows @ seg) ! j)"
        unfolding n1 n2 by (rule cr)
      ultimately show ?thesis using b by blast
    qed
  qed
  show ?thesis unfolding rowsOK_def using main by blast
qed

lemma forEach_roots_rowsOK:
  "forEach (\<lambda>root index rs. visit n bp cmp root 0 (string_of_nat (index + 1)) rs)
     cs a rows = Some rows' \<Longrightarrow>
   rowsOK bp cmp rows \<Longrightarrow>
   cs = drop a (sortedBucket bp cmp None) \<Longrightarrow>
   rowsOK bp cmp rows'"
proof (induction cs arbitrary: a rows)
  case Nil
  then show ?case by auto
next
  case (Cons c cs)
  let ?B = "sortedBucket bp cmp None"
  from Cons.prems(3) have a: "a < length ?B"
    by (metis drop_all list.distinct(1) not_le_imp_less)
  have ca: "?B ! a = c" and cs: "cs = drop (Suc a) ?B"
    using Cons.prems(3) a by (simp_all add: Cons_nth_drop_Suc [symmetric])
  from Cons.prems(1) obtain R1 where
    v: "visit n bp cmp c 0 (string_of_nat (a + 1)) rows = Some R1"
    and rest: "forEach (\<lambda>root index rs. visit n bp cmp root 0 (string_of_nat (index + 1)) rs)
           cs (Suc a) R1 = Some rows'"
    by (auto split: option.splits)
  from visit_segOK [OF v] obtain s where R1: "R1 = rows @ s"
    and s: "segOK bp cmp c 0 (string_of_nat (a + 1)) s" by blast
  have ok: "rowsOK bp cmp R1"
    unfolding R1 by (rule rowsOK_append [OF Cons.prems(2) s a ca])
  show ?case
    by (rule Cons.IH [OF rest ok cs])
qed

lemma buildTaskRows_rowsOK:
  "buildTaskRows parse lc n tasks = Some rows \<Longrightarrow>
   rowsOK (byParent tasks) (compareTasks parse lc) rows"
  unfolding buildTaskRows_def Let_def
  by (erule forEach_roots_rowsOK [OF _ rowsOK_Nil]) simp

section \<open>Reachability and termination\<close>

lemma reachDepth_in_tasks: "reachDepth tasks t k \<Longrightarrow> t \<in> set tasks"
  by (cases rule: reachDepth.cases) auto

lemma reachDepth_reachable: "reachDepth tasks t k \<Longrightarrow> reachable tasks t"
  by (induction rule: reachDepth.induct) (auto intro: reachable.intros)

lemma reachable_in_tasks: "reachable tasks t \<Longrightarrow> t \<in> set tasks"
  by (cases rule: reachable.cases) auto

lemma same_id:
  "distinct (map id' tasks) \<Longrightarrow> s \<in> set tasks \<Longrightarrow> s' \<in> set tasks \<Longrightarrow> id' s = id' s' \<Longrightarrow>
   s = s'"
  by (auto simp: distinct_map dest: inj_onD)

lemma reachDepth_unique:
  assumes d: "distinct (map id' tasks)"
  shows "reachDepth tasks t j \<Longrightarrow> reachDepth tasks t k \<Longrightarrow> j = k"
proof (induction arbitrary: k rule: reachDepth.induct)
  case (root t)
  from root.prems root.hyps show ?case by (cases rule: reachDepth.cases) auto
next
  case (child s j t)
  from child.prems show ?case
  proof (cases rule: reachDepth.cases)
    case root
    then show ?thesis using child.hyps by simp
  next
    case (child s' k')
    have "s' = s"
      using same_id [OF d reachDepth_in_tasks [OF child(2)] reachDepth_in_tasks [OF child.hyps(1)]]
        child(4) child.hyps(3) by simp
    then show ?thesis using child child.IH by simp
  qed
qed

lemma reachDepth_below:
  "reachDepth tasks t k \<Longrightarrow> j \<le> k \<Longrightarrow> \<exists>s. reachDepth tasks s j"
proof (induction arbitrary: j rule: reachDepth.induct)
  case (root t)
  then show ?case using reachDepth.root by auto
next
  case (child s k t)
  show ?case
  proof (cases "j = Suc k")
    case True
    then show ?thesis using reachDepth.child [OF child.hyps] by blast
  next
    case False
    then show ?thesis using child.IH [of j] child.prems by simp
  qed
qed

lemma reachDepth_bound:
  assumes d: "distinct (map id' tasks)" and r: "reachDepth tasks t k"
  shows "k < length tasks"
proof -
  define f where "f j = (SOME s. reachDepth tasks s j)" for j
  have f: "reachDepth tasks (f j) j" if "j \<le> k" for j
    unfolding f_def using reachDepth_below [OF r that] by (rule someI_ex)
  have inj: "inj_on f {..k}"
  proof (rule inj_onI)
    fix x y assume x: "x \<in> {..k}" and y: "y \<in> {..k}" and e: "f x = f y"
    have "reachDepth tasks (f x) x" using f x by simp
    moreover have "reachDepth tasks (f x) y" using f [of y] y e by simp
    ultimately show "x = y" by (rule reachDepth_unique [OF d])
  qed
  have sub: "f ` {..k} \<subseteq> set tasks"
    using f reachDepth_in_tasks by auto
  have "card {..k} \<le> card (set tasks)"
    by (rule card_inj_on_le [OF inj sub]) simp
  also have "\<dots> \<le> length tasks" by (rule card_length)
  finally show ?thesis by simp
qed

lemma visit_returns:
  assumes d: "distinct (map id' tasks)"
  shows "reachDepth tasks t k \<Longrightarrow> length tasks \<le> n + k \<Longrightarrow>
         \<exists>rows'. visit n (byParent tasks) cmp t dp num rows = Some rows'"
proof (induction n arbitrary: t k dp num rows)
  case 0
  then show ?case using reachDepth_bound [OF d "0.prems"(1)] by simp
next
  case (Suc n)
  have "\<exists>s'. visit n (byParent tasks) cmp c (dp + 1) (num @ ''.'' @ string_of_nat (i + 1)) s
           = Some s'"
    if c: "c \<in> set (sortedBucket (byParent tasks) cmp (Some (id' t)))" for c i s
  proof -
    have "c \<in> set tasks" and "parentTaskId c = Some (id' t)"
      using c by (simp_all add: set_sortedBucket)
    then have "reachDepth tasks c (Suc k)"
      using reachDepth.child [OF Suc.prems(1)] by simp
    then show ?thesis using Suc.IH [of c "Suc k"] Suc.prems(2) by simp
  qed
  then show ?case
    by (simp add: Let_def) (rule forEach_total, blast)
qed

lemma buildTaskRows_returns:
  assumes d: "distinct (map id' tasks)" and n: "length tasks \<le> n"
  shows "\<exists>rows. buildTaskRows parse lc n tasks = Some rows"
proof -
  have "\<exists>s'. visit n (byParent tasks) (compareTasks parse lc) c 0 (string_of_nat (i + 1)) s
           = Some s'"
    if c: "c \<in> set (sortedBucket (byParent tasks) (compareTasks parse lc) None)" for c i s
  proof -
    have "c \<in> set tasks" and "parentTaskId c = None"
      using c by (simp_all add: set_sortedBucket)
    then have "reachDepth tasks c 0" by (rule reachDepth.root)
    then show ?thesis using visit_returns [OF d, of c 0 n] n by simp
  qed
  then show ?thesis
    unfolding buildTaskRows_def Let_def by (rule forEach_total)
qed

lemma buildTaskRows_fuel:
  "buildTaskRows parse lc n tasks = Some rows \<Longrightarrow> n \<le> m \<Longrightarrow>
   buildTaskRows parse lc m tasks = Some rows"
  unfolding buildTaskRows_def Let_def
  by (erule forEach_mono) (rule visit_mono)

lemma childRow_byParent:
  "childRow (byParent tasks) cmp r' r \<Longrightarrow>
   task r \<in> set tasks \<and> parentTaskId (task r) = Some (id' (task r')) \<and> depth r = depth r' + 1"
proof -
  assume "childRow (byParent tasks) cmp r' r"
  then obtain a where a: "a < length (sortedBucket (byParent tasks) cmp (Some (id' (task r'))))"
    and e: "sortedBucket (byParent tasks) cmp (Some (id' (task r'))) ! a = task r"
    and dp: "depth r = depth r' + 1"
    unfolding childRow_def by blast
  have "task r \<in> set (sortedBucket (byParent tasks) cmp (Some (id' (task r'))))"
    using a e nth_mem by metis
  then show ?thesis using dp by (simp add: set_sortedBucket)
qed

lemma rows_reachDepth:
  assumes R: "rowsOK (byParent tasks) cmp rows"
  shows "j < length rows \<Longrightarrow> reachDepth tasks (task (rows ! j)) (depth (rows ! j))"
proof (induction j rule: less_induct)
  case (less j)
  let ?B = "sortedBucket (byParent tasks) cmp None"
  from R less.prems have "(\<exists>a < length ?B. ?B ! a = task (rows ! j) \<and>
            number (rows ! j) = string_of_nat (a + 1) \<and> depth (rows ! j) = 0) \<or>
        (\<exists>i < j. childRow (byParent tasks) cmp (rows ! i) (rows ! j) \<and>
                 (\<forall>k. i < k \<and> k < j \<longrightarrow> depth (rows ! i) < depth (rows ! k)))"
    unfolding rowsOK_def by blast
  then show ?case
  proof
    assume "\<exists>a < length ?B. ?B ! a = task (rows ! j) \<and>
            number (rows ! j) = string_of_nat (a + 1) \<and> depth (rows ! j) = 0"
    then obtain a where a: "a < length ?B" and e: "?B ! a = task (rows ! j)"
      and z: "depth (rows ! j) = 0" by blast
    have "task (rows ! j) \<in> set ?B" using a e nth_mem by metis
    then show ?thesis using z by (simp add: set_sortedBucket reachDepth.root)
  next
    assume "\<exists>i < j. childRow (byParent tasks) cmp (rows ! i) (rows ! j) \<and>
                 (\<forall>k. i < k \<and> k < j \<longrightarrow> depth (rows ! i) < depth (rows ! k))"
    then obtain i where i: "i < j" and cr: "childRow (byParent tasks) cmp (rows ! i) (rows ! j)"
      by blast
    have "reachDepth tasks (task (rows ! i)) (depth (rows ! i))"
      using less.IH [OF i] i less.prems by simp
    then show ?thesis
      using childRow_byParent [OF cr] reachDepth.child by fastforce
  qed
qed

section \<open>Number strings\<close>

lemma of_char_digit: "n < 10 \<Longrightarrow> (of_char (digit n) :: nat) = 48 + n"
proof -
  assume n: "n < 10"
  have "(of_char (digit n) :: nat) = (48 + n) mod 256"
    unfolding digit_def by (rule of_char_of)
  also have "\<dots> = 48 + n" using n by (intro mod_less) linarith
  finally show ?thesis .
qed

lemma digit_inj: "a < 10 \<Longrightarrow> b < 10 \<Longrightarrow> digit a = digit b \<Longrightarrow> a = b"
proof -
  assume a: "a < 10" and b: "b < 10" and e: "digit a = digit b"
  have "(of_char (digit a) :: nat) = of_char (digit b)" by (simp only: e)
  then show ?thesis using of_char_digit [OF a] of_char_digit [OF b] by linarith
qed

lemma digit_not_dot: "n < 10 \<Longrightarrow> digit n \<noteq> CHR ''.''"
proof
  assume n: "n < 10" and e: "digit n = CHR ''.''"
  have "(of_char (digit n) :: nat) = of_char CHR ''.''" by (simp only: e)
  moreover have "(of_char CHR ''.'' :: nat) = 46" by simp
  ultimately show False using of_char_digit [OF n] by linarith
qed

lemma string_of_nat_not_Nil: "string_of_nat n \<noteq> []"
  by (subst string_of_nat.simps) simp

lemma dot_notin_string_of_nat: "CHR ''.'' \<notin> set (string_of_nat n)"
proof (induction n rule: string_of_nat.induct)
  case (1 n)
  show ?case
  proof (cases "n < 10")
    case True
    then show ?thesis using digit_not_dot [of n] by (subst string_of_nat.simps) auto
  next
    case False
    have "n mod 10 < 10" by simp
    then have "digit (n mod 10) \<noteq> CHR ''.''" by (rule digit_not_dot)
    then show ?thesis using 1 False by (subst string_of_nat.simps) auto
  qed
qed

lemma string_of_nat_inj: "string_of_nat m = string_of_nat n \<Longrightarrow> m = n"
proof (induction m arbitrary: n rule: string_of_nat.induct)
  case (1 m)
  show ?case
  proof (cases "m < 10")
    case m: True
    show ?thesis
    proof (cases "n < 10")
      case True
      then show ?thesis using m "1.prems"
        by (simp add: string_of_nat.simps [of m] string_of_nat.simps [of n] digit_inj)
    next
      case False
      then show ?thesis using m "1.prems" string_of_nat_not_Nil [of "n div 10"]
        by (simp add: string_of_nat.simps [of m] string_of_nat.simps [of n])
    qed
  next
    case m: False
    show ?thesis
    proof (cases "n < 10")
      case True
      then show ?thesis using m "1.prems" string_of_nat_not_Nil [of "m div 10"]
        by (simp add: string_of_nat.simps [of m] string_of_nat.simps [of n])
    next
      case False
      have e: "string_of_nat (m div 10) = string_of_nat (n div 10)"
        and dg: "digit (m mod 10) = digit (n mod 10)"
        using m False "1.prems"
        by (simp_all add: string_of_nat.simps [of m] string_of_nat.simps [of n])
      have "m div 10 = n div 10" using "1.IH" [OF m e] .
      moreover have "m mod 10 = n mod 10" using dg by (intro digit_inj) simp_all
      ultimately show ?thesis by (metis div_mult_mod_eq)
    qed
  qed
qed

lemma split_last_sep:
  assumes u: "c \<notin> set u" and v: "c \<notin> set v" and e: "xs @ c # u = ys @ c # v"
  shows "xs = ys \<and> u = v"
proof -
  have "rev (xs @ c # u) = rev (ys @ c # v)" using e by simp
  then have r: "rev u @ c # rev xs = rev v @ c # rev ys" by simp
  have tw: "takeWhile (\<lambda>x. x \<noteq> c) (rev w @ c # zs) = rev w" if "c \<notin> set w" for w zs
  proof -
    have "takeWhile (\<lambda>x. x \<noteq> c) (rev w @ c # zs)
            = rev w @ takeWhile (\<lambda>x. x \<noteq> c) (c # zs)"
      by (rule takeWhile_append2) (use that in auto)
    then show ?thesis by simp
  qed
  have "takeWhile (\<lambda>x. x \<noteq> c) (rev u @ c # rev xs) = rev u"
    by (rule tw [OF u])
  moreover have "takeWhile (\<lambda>x. x \<noteq> c) (rev v @ c # rev ys) = rev v"
    by (rule tw [OF v])
  ultimately have "rev u = rev v" using r by simp
  then have "u = v" by simp
  then show ?thesis using e by simp
qed

lemma numberOf_Cons: "p \<noteq> [] \<Longrightarrow> numberOf (a # p) = numberOf p @ ''.'' @ string_of_nat a"
  by (cases p) simp_all

lemma numberOf_inj: "p \<noteq> [] \<Longrightarrow> q \<noteq> [] \<Longrightarrow> numberOf p = numberOf q \<Longrightarrow> p = q"
proof (induction p arbitrary: q)
  case Nil then show ?case by simp
next
  case (Cons a p)
  from Cons.prems(2) obtain b q' where q: "q = b # q'" by (cases q) auto
  show ?case
  proof (cases "p = []")
    case pe: True
    show ?thesis
    proof (cases "q' = []")
      case True
      then show ?thesis using pe q Cons.prems(3) by (simp add: string_of_nat_inj)
    next
      case False
      have "string_of_nat a = numberOf q' @ CHR ''.'' # string_of_nat b"
        using Cons.prems(3) pe q by (simp add: numberOf_Cons [OF False])
      then have "CHR ''.'' \<in> set (string_of_nat a)" by simp
      then show ?thesis using dot_notin_string_of_nat by blast
    qed
  next
    case pn: False
    show ?thesis
    proof (cases "q' = []")
      case True
      have "string_of_nat b = numberOf p @ CHR ''.'' # string_of_nat a"
        using Cons.prems(3) True q by (simp add: numberOf_Cons [OF pn])
      then have "CHR ''.'' \<in> set (string_of_nat b)" by simp
      then show ?thesis using dot_notin_string_of_nat by blast
    next
      case False
      have "numberOf p @ CHR ''.'' # string_of_nat a = numberOf q' @ CHR ''.'' # string_of_nat b"
        using Cons.prems(3) q by (simp add: numberOf_Cons [OF pn] numberOf_Cons [OF False])
      then have "numberOf p = numberOf q' \<and> string_of_nat a = string_of_nat b"
        by (rule split_last_sep [OF dot_notin_string_of_nat dot_notin_string_of_nat])
      then show ?thesis using Cons.IH [OF pn False] q by (simp add: string_of_nat_inj)
    qed
  qed
qed

lemma forEach_children_numbers:
  assumes IH: "\<And>c i R R'.
      visit n bp cmp c (d + 1) (numberOf (Suc i # p)) R = Some R' \<Longrightarrow>
      \<exists>qs. map number R' = map number R @ map (\<lambda>q. numberOf (q @ Suc i # p)) qs \<and> distinct qs"
    and p: "p \<noteq> []"
  shows "forEach (\<lambda>child index rs.
            visit n bp cmp child (d + 1) (numberOf p @ ''.'' @ string_of_nat (index + 1)) rs)
           cs a rows = Some rows' \<Longrightarrow>
         map number rows = old @ map (\<lambda>q. numberOf (q @ p)) qs \<Longrightarrow>
         distinct qs \<Longrightarrow> (\<forall>q\<in>set qs. q = [] \<or> last q \<le> a) \<Longrightarrow>
         \<exists>qs'. map number rows' = old @ map (\<lambda>q. numberOf (q @ p)) qs' \<and> distinct qs'"
proof (induction cs arbitrary: a rows qs)
  case Nil
  then show ?case by auto
next
  case (Cons c cs)
  have nm: "numberOf p @ ''.'' @ string_of_nat (a + 1) = numberOf (Suc a # p)"
    using p by (simp add: numberOf_Cons)
  from Cons.prems(1) obtain R1 where
    v: "visit n bp cmp c (d + 1) (numberOf (Suc a # p)) rows = Some R1"
    and rest: "forEach (\<lambda>child index rs.
            visit n bp cmp child (d + 1) (numberOf p @ ''.'' @ string_of_nat (index + 1)) rs)
           cs (Suc a) R1 = Some rows'"
    unfolding nm [symmetric] by (auto split: option.splits)
  from IH [OF v] obtain qs1 where
    R1: "map number R1 = map number rows @ map (\<lambda>q. numberOf (q @ Suc a # p)) qs1"
    and d1: "distinct qs1" by blast
  let ?new = "map (\<lambda>q. q @ [Suc a]) qs1"
  have m: "map number R1 = old @ map (\<lambda>q. numberOf (q @ p)) (qs @ ?new)"
    unfolding R1 Cons.prems(2) by (simp add: comp_def)
  have dn: "distinct ?new" using d1 by (simp add: distinct_map inj_on_def)
  have disj: "set qs \<inter> set ?new = {}"
  proof (rule ccontr)
    assume "set qs \<inter> set ?new \<noteq> {}"
    then obtain q where q: "q \<in> set qs" and qn: "q \<in> set ?new" by blast
    from qn obtain q' where "q = q' @ [Suc a]" by auto
    then have "q \<noteq> [] \<and> last q = Suc a" by simp
    then show False using Cons.prems(4) q by auto
  qed
  have dd: "distinct (qs @ ?new)" using Cons.prems(3) dn disj by simp
  have bound: "\<forall>q\<in>set (qs @ ?new). q = [] \<or> last q \<le> Suc a"
    using Cons.prems(4) by auto
  show ?case by (rule Cons.IH [OF rest m dd bound])
qed

lemma visit_numbers:
  "visit n bp cmp t d (numberOf p) rows = Some rows' \<Longrightarrow> p \<noteq> [] \<Longrightarrow>
   \<exists>qs. map number rows' = map number rows @ map (\<lambda>q. numberOf (q @ p)) qs \<and> distinct qs"
proof (induction n arbitrary: t d p rows rows')
  case 0 then show ?case by simp
next
  case (Suc n)
  have fe: "forEach (\<lambda>child index rs.
            visit n bp cmp child (d + 1) (numberOf p @ ''.'' @ string_of_nat (index + 1)) rs)
           (sortedBucket bp cmp (Some (id' t))) 0
           (rows @ [\<lparr>task = t, depth = d, number = numberOf p\<rparr>]) = Some rows'"
    using Suc.prems(1) by (simp add: Let_def)
  have ih: "\<exists>qs. map number R' = map number R @ map (\<lambda>q. numberOf (q @ Suc i # p)) qs \<and> distinct qs"
    if "visit n bp cmp c (d + 1) (numberOf (Suc i # p)) R = Some R'" for c i R R'
    using Suc.IH [OF that] by simp
  show ?case
    by (rule forEach_children_numbers
          [OF ih Suc.prems(2) fe, where old = "map number rows" and qs = "[[]]"])
      simp_all
qed

lemma forEach_roots_numbers:
  "forEach (\<lambda>root index rs. visit n bp cmp root 0 (string_of_nat (index + 1)) rs)
     cs a rows = Some rows' \<Longrightarrow>
   map number rows = map numberOf ps \<Longrightarrow> distinct ps \<Longrightarrow>
   (\<forall>p\<in>set ps. p \<noteq> [] \<and> last p \<le> a) \<Longrightarrow>
   \<exists>ps'. map number rows' = map numberOf ps' \<and> distinct ps' \<and> (\<forall>p\<in>set ps'. p \<noteq> [])"
proof (induction cs arbitrary: a rows ps)
  case Nil
  then show ?case by auto
next
  case (Cons c cs)
  from Cons.prems(1) obtain R1 where
    v: "visit n bp cmp c 0 (numberOf [Suc a]) rows = Some R1"
    and rest: "forEach (\<lambda>root index rs. visit n bp cmp root 0 (string_of_nat (index + 1)) rs)
           cs (Suc a) R1 = Some rows'"
    by (auto split: option.splits)
  from visit_numbers [OF v] obtain qs1 where
    R1: "map number R1 = map number rows @ map (\<lambda>q. numberOf (q @ [Suc a])) qs1"
    and d1: "distinct qs1" by blast
  let ?new = "map (\<lambda>q. q @ [Suc a]) qs1"
  have m: "map number R1 = map numberOf (ps @ ?new)"
    unfolding R1 Cons.prems(2) by (simp add: comp_def)
  have dn: "distinct ?new" using d1 by (simp add: distinct_map inj_on_def)
  have disj: "set ps \<inter> set ?new = {}"
  proof (rule ccontr)
    assume "set ps \<inter> set ?new \<noteq> {}"
    then obtain q where q: "q \<in> set ps" and qn: "q \<in> set ?new" by blast
    from qn obtain q' where "q = q' @ [Suc a]" by auto
    then have "last q = Suc a" by simp
    then show False using Cons.prems(4) q by auto
  qed
  have dd: "distinct (ps @ ?new)" using Cons.prems(3) dn disj by simp
  have bound: "\<forall>p\<in>set (ps @ ?new). p \<noteq> [] \<and> last p \<le> Suc a"
    using Cons.prems(4) by auto
  show ?case by (rule Cons.IH [OF rest m dd bound])
qed

lemma buildTaskRows_numbers_distinct:
  assumes "buildTaskRows parse lc n tasks = Some rows"
  shows "distinct (map number rows)"
proof -
  from assms have "\<exists>ps'. map number rows = map numberOf ps' \<and> distinct ps' \<and> (\<forall>p\<in>set ps'. p \<noteq> [])"
    unfolding buildTaskRows_def Let_def
    by (rule forEach_roots_numbers [where ps = "[]"]) simp_all
  then obtain ps where m: "map number rows = map numberOf ps" and d: "distinct ps"
    and ne: "\<forall>p\<in>set ps. p \<noteq> []" by blast
  have "inj_on numberOf (set ps)"
    by (rule inj_onI) (use ne numberOf_inj in blast)
  then show ?thesis unfolding m using d by (simp add: distinct_map)
qed

section \<open>One row per task\<close>

lemma rowsOK_cases:
  assumes "rowsOK bp cmp rows" and "j < length rows"
  obtains (root) a where "a < length (sortedBucket bp cmp None)"
      "sortedBucket bp cmp None ! a = task (rows ! j)"
      "number (rows ! j) = string_of_nat (a + 1)" "depth (rows ! j) = 0"
  | (child) i a where "i < j"
      "a < length (sortedBucket bp cmp (Some (id' (task (rows ! i)))))"
      "sortedBucket bp cmp (Some (id' (task (rows ! i)))) ! a = task (rows ! j)"
      "number (rows ! j) = number (rows ! i) @ ''.'' @ string_of_nat (a + 1)"
      "depth (rows ! j) = depth (rows ! i) + 1"
      "\<forall>k. i < k \<and> k < j \<longrightarrow> depth (rows ! i) < depth (rows ! k)"
  using assms unfolding rowsOK_def childRow_def by blast

lemma bucket_member:
  "a < length (sortedBucket (byParent tasks) cmp k) \<Longrightarrow>
   sortedBucket (byParent tasks) cmp k ! a = t \<Longrightarrow> t \<in> set tasks \<and> parentTaskId t = k"
proof -
  assume "a < length (sortedBucket (byParent tasks) cmp k)"
    and "sortedBucket (byParent tasks) cmp k ! a = t"
  then have "t \<in> set (sortedBucket (byParent tasks) cmp k)" using nth_mem by blast
  then show ?thesis by (simp add: set_sortedBucket)
qed

lemma distinct_tasks: "distinct (map id' tasks) \<Longrightarrow> distinct tasks"
  by (simp add: distinct_map)

lemma rows_task_inj:
  assumes d: "distinct (map id' tasks)"
    and R: "rowsOK (byParent tasks) cmp rows"
    and N: "distinct (map number rows)"
  shows "depth (rows ! j1) = n \<Longrightarrow> j1 < length rows \<Longrightarrow> j2 < length rows \<Longrightarrow>
         task (rows ! j1) = task (rows ! j2) \<Longrightarrow> j1 = j2"
proof (induction n arbitrary: j1 j2)
  case 0
  let ?B = "sortedBucket (byParent tasks) cmp None"
  from R "0.prems"(2) obtain a1 where a1: "a1 < length ?B" "?B ! a1 = task (rows ! j1)"
    "number (rows ! j1) = string_of_nat (a1 + 1)"
    using "0.prems"(1) by (cases rule: rowsOK_cases) auto
  have pn: "parentTaskId (task (rows ! j2)) = None"
    using bucket_member [OF a1(1,2)] "0.prems"(4) by simp
  from R "0.prems"(3) obtain a2 where a2: "a2 < length ?B" "?B ! a2 = task (rows ! j2)"
    "number (rows ! j2) = string_of_nat (a2 + 1)"
  proof (cases rule: rowsOK_cases)
    case (root a) then show ?thesis using that by blast
  next
    case (child i a)
    then show ?thesis using bucket_member [OF child(2,3)] pn by simp
  qed
  have dB: "distinct ?B" by (rule distinct_sortedBucket [OF distinct_tasks [OF d]])
  have "?B ! a1 = ?B ! a2" using a1(2) a2(2) "0.prems"(4) by simp
  then have "a1 = a2" using nth_eq_iff_index_eq [OF dB a1(1) a2(1)] by simp
  then have "map number rows ! j1 = map number rows ! j2"
    using a1(3) a2(3) "0.prems"(2,3) by simp
  then show ?case
    using nth_eq_iff_index_eq [OF N, of j1 j2] "0.prems"(2,3) by simp
next
  case (Suc n)
  from R Suc.prems(2) obtain i1 a1 where i1: "i1 < j1"
    and a1: "a1 < length (sortedBucket (byParent tasks) cmp (Some (id' (task (rows ! i1)))))"
      "sortedBucket (byParent tasks) cmp (Some (id' (task (rows ! i1)))) ! a1 = task (rows ! j1)"
    and n1: "number (rows ! j1) = number (rows ! i1) @ ''.'' @ string_of_nat (a1 + 1)"
    and d1: "depth (rows ! j1) = depth (rows ! i1) + 1"
    using Suc.prems(1) by (cases rule: rowsOK_cases) auto
  have p1: "parentTaskId (task (rows ! j2)) = Some (id' (task (rows ! i1)))"
    using bucket_member [OF a1] Suc.prems(4) by simp
  from R Suc.prems(3) obtain i2 a2 where i2: "i2 < j2"
    and a2: "a2 < length (sortedBucket (byParent tasks) cmp (Some (id' (task (rows ! i2)))))"
      "sortedBucket (byParent tasks) cmp (Some (id' (task (rows ! i2)))) ! a2 = task (rows ! j2)"
    and n2: "number (rows ! j2) = number (rows ! i2) @ ''.'' @ string_of_nat (a2 + 1)"
  proof (cases rule: rowsOK_cases)
    case (root a)
    then show ?thesis using bucket_member [OF root(1,2)] p1 by simp
  next
    case (child i a) then show ?thesis using that by blast
  qed
  have l1: "i1 < length rows" and l2: "i2 < length rows"
    using i1 i2 Suc.prems(2,3) by simp_all
  have "id' (task (rows ! i1)) = id' (task (rows ! i2))"
    using bucket_member [OF a2] p1 by simp
  moreover have "task (rows ! i1) \<in> set tasks"
    using rows_reachDepth [OF R l1] by (rule reachDepth_in_tasks)
  moreover have "task (rows ! i2) \<in> set tasks"
    using rows_reachDepth [OF R l2] by (rule reachDepth_in_tasks)
  ultimately have te: "task (rows ! i1) = task (rows ! i2)" by (rule same_id [OF d, rotated 2])
  have "depth (rows ! i1) = n" using d1 Suc.prems(1) by simp
  then have ii: "i1 = i2" using l1 l2 te by (rule Suc.IH)
  let ?B = "sortedBucket (byParent tasks) cmp (Some (id' (task (rows ! i1))))"
  have dB: "distinct ?B" by (rule distinct_sortedBucket [OF distinct_tasks [OF d]])
  have b1: "a1 < length ?B" and b2: "a2 < length ?B" using a1(1) a2(1) ii by simp_all
  have "?B ! a1 = ?B ! a2" using a1(2) a2(2) Suc.prems(4) ii by simp
  then have "a1 = a2" using nth_eq_iff_index_eq [OF dB b1 b2] by simp
  then have "map number rows ! j1 = map number rows ! j2"
    using n1 n2 ii Suc.prems(2,3) by simp
  then show ?case
    using nth_eq_iff_index_eq [OF N, of j1 j2] Suc.prems(2,3) by simp
qed

lemma rows_tasks_distinct:
  assumes d: "distinct (map id' tasks)"
    and R: "rowsOK (byParent tasks) cmp rows"
    and N: "distinct (map number rows)"
  shows "distinct (map task rows)"
proof -
  have "i = j" if "i < length rows" "j < length rows" "map task rows ! i = map task rows ! j"
    for i j
    using rows_task_inj [OF d R N refl, of i j] that by simp
  then show ?thesis by (simp add: distinct_conv_nth) blast
qed

lemma ancestor_front:
  "ancestor tasks m p \<Longrightarrow> c \<in> set tasks \<Longrightarrow> parentTaskId c = Some (id' m) \<Longrightarrow>
   ancestor tasks c p"
proof (induction rule: ancestor.induct)
  case (parent m p)
  have "ancestor tasks c m"
    by (rule ancestor.parent [OF parent.prems(1) parent.hyps(1) parent.prems(2)])
  then show ?case by (rule ancestor.step [OF _ parent.hyps(2,3)])
next
  case (step m p q)
  have "ancestor tasks c p" by (rule step.IH [OF step.prems])
  then show ?case by (rule ancestor.step [OF _ step.hyps(2,3)])
qed

lemma ancestor_reachDepth:
  assumes d: "distinct (map id' tasks)"
  shows "ancestor tasks c p \<Longrightarrow> reachDepth tasks c k \<Longrightarrow> \<exists>j<k. reachDepth tasks p j"
proof (induction arbitrary: k rule: ancestor.induct)
  case (parent c p)
  from parent.prems show ?case
  proof (cases rule: reachDepth.cases)
    case root then show ?thesis using parent.hyps by simp
  next
    case (child s k')
    have "s = p"
      using same_id [OF d reachDepth_in_tasks [OF child(2)] parent.hyps(2)] child(4) parent.hyps(3)
      by simp
    then have "reachDepth tasks p k'" and "k' < k" using child by simp_all
    then show ?thesis by blast
  qed
next
  case (step c p q)
  from step.IH [OF step.prems] obtain j where j: "j < k" and rp: "reachDepth tasks p j" by blast
  from rp show ?case
  proof (cases rule: reachDepth.cases)
    case root then show ?thesis using step.hyps by simp
  next
    case (child s j')
    have "s = q"
      using same_id [OF d reachDepth_in_tasks [OF child(2)] step.hyps(2)] child(4) step.hyps(3)
      by simp
    then have "reachDepth tasks q j'" and "j' < k" using child j by simp_all
    then show ?thesis by blast
  qed
qed

lemma reachDepth_not_cyclic:
  assumes d: "distinct (map id' tasks)" and r: "reachDepth tasks t k"
  shows "\<not> ancestor tasks t t"
proof
  assume "ancestor tasks t t"
  from ancestor_reachDepth [OF d this r] obtain j where "j < k" "reachDepth tasks t j" by blast
  then show False using reachDepth_unique [OF d r] by blast
qed

section \<open>Properties of the task rows\<close>

lemma between_descendants:
  assumes R: "rowsOK (byParent tasks) cmp rows"
    and j: "j < length rows"
    and B: "\<forall>k. i < k \<and> k < j \<longrightarrow> depth (rows ! i) < depth (rows ! k)"
  shows "i < k \<Longrightarrow> k < j \<Longrightarrow> ancestor tasks (task (rows ! k)) (task (rows ! i))"
proof (induction k rule: less_induct)
  case (less k)
  have kl: "k < length rows" using less.prems(2) j by simp
  have il: "i < length rows" using less.prems kl by simp
  have dk: "depth (rows ! i) < depth (rows ! k)" using B less.prems by blast
  have ti: "task (rows ! i) \<in> set tasks"
    using rows_reachDepth [OF R il] by (rule reachDepth_in_tasks)
  from R kl show ?case
  proof (cases rule: rowsOK_cases)
    case (root a)
    then show ?thesis using dk by simp
  next
    case (child m a)
    have mem: "task (rows ! k) \<in> set tasks"
      and par: "parentTaskId (task (rows ! k)) = Some (id' (task (rows ! m)))"
      using bucket_member [OF child(2,3)] by simp_all
    consider (before) "m < i" | (same) "m = i" | (after) "i < m" by linarith
    then show ?thesis
    proof cases
      case before
      then have "depth (rows ! m) < depth (rows ! i)" using child(6) less.prems(1) by blast
      then show ?thesis using child(5) dk by simp
    next
      case same
      show ?thesis using ancestor.parent [OF mem ti] par same by simp
    next
      case after
      have "ancestor tasks (task (rows ! m)) (task (rows ! i))"
        using less.IH [OF child(1) after] child(1) less.prems(2) by simp
      then show ?thesis using mem par by (rule ancestor_front)
    qed
  qed
qed

lemma forEach_roots_complete:
  "forEach (\<lambda>root index rs. visit n bp cmp root 0 (string_of_nat (index + 1)) rs)
     cs a rows = Some rows' \<Longrightarrow>
   set rows \<subseteq> set rows' \<and> (\<forall>c\<in>set cs. \<exists>r\<in>set rows'. task r = c)"
proof (induction cs arbitrary: a rows)
  case Nil
  then show ?case by simp
next
  case (Cons c cs)
  from Cons.prems obtain R1 where
    v: "visit n bp cmp c 0 (string_of_nat (a + 1)) rows = Some R1"
    and rest: "forEach (\<lambda>root index rs. visit n bp cmp root 0 (string_of_nat (index + 1)) rs)
           cs (Suc a) R1 = Some rows'"
    by (auto split: option.splits)
  from visit_segOK [OF v] obtain s where R1: "R1 = rows @ s"
    and s: "segOK bp cmp c 0 (string_of_nat (a + 1)) s" by blast
  have "s \<noteq> []" and "task (s ! 0) = c" using s by (simp_all add: segOK_def)
  then have "s ! 0 \<in> set s" and "task (s ! 0) = c" by simp_all
  then have c: "\<exists>r\<in>set R1. task r = c" unfolding R1 by auto
  from Cons.IH [OF rest] have sub: "set R1 \<subseteq> set rows'"
    and all: "\<forall>c\<in>set cs. \<exists>r\<in>set rows'. task r = c" by simp_all
  have "set rows \<subseteq> set rows'" using sub R1 by auto
  moreover have "\<exists>r\<in>set rows'. task r = c" using c sub by blast
  ultimately show ?case using all by simp
qed

lemma buildTaskRows_roots:
  assumes b: "buildTaskRows parse lc fuel tasks = Some rows"
    and t: "t \<in> set tasks" "parentTaskId t = None"
  shows "\<exists>r\<in>set rows. task r = t"
proof -
  have "t \<in> set (sortedBucket (byParent tasks) (compareTasks parse lc) None)"
    using t by (simp add: set_sortedBucket)
  then show ?thesis
    using forEach_roots_complete [OF b [unfolded buildTaskRows_def Let_def]] by blast
qed

lemma rows_root_depth:
  assumes R: "rowsOK (byParent tasks) cmp rows"
    and r: "r \<in> set rows" and p: "parentTaskId (task r) = None"
  shows "depth r = 0"
proof -
  from r obtain j where j: "j < length rows" and e: "rows ! j = r"
    by (auto simp: in_set_conv_nth)
  from R j show ?thesis
  proof (cases rule: rowsOK_cases)
    case (root a) then show ?thesis using e by simp
  next
    case (child i a)
    then show ?thesis using bucket_member [OF child(2,3)] p e by simp
  qed
qed

lemma rows_parent_row:
  assumes d: "distinct (map id' tasks)"
    and R: "rowsOK (byParent tasks) cmp rows"
    and N: "distinct (map number rows)"
    and i: "i < length rows" and j: "j < length rows"
    and p: "parentTaskId (task (rows ! j)) = Some (id' (task (rows ! i)))"
  shows "depth (rows ! j) = depth (rows ! i) + 1 \<and> i < j \<and>
         (\<forall>k. i < k \<and> k < j \<longrightarrow> depth (rows ! i) < depth (rows ! k))"
proof -
  from R j show ?thesis
  proof (cases rule: rowsOK_cases)
    case (root a)
    then show ?thesis using bucket_member [OF root(1,2)] p by simp
  next
    case (child m a)
    have ml: "m < length rows" using child(1) j by simp
    have "id' (task (rows ! m)) = id' (task (rows ! i))"
      using bucket_member [OF child(2,3)] p by simp
    moreover have "task (rows ! m) \<in> set tasks"
      using rows_reachDepth [OF R ml] by (rule reachDepth_in_tasks)
    moreover have "task (rows ! i) \<in> set tasks"
      using rows_reachDepth [OF R i] by (rule reachDepth_in_tasks)
    ultimately have "task (rows ! m) = task (rows ! i)" by (rule same_id [OF d, rotated 2])
    then have "m = i" using rows_task_inj [OF d R N refl ml i] by simp
    then show ?thesis using child by simp
  qed
qed

text \<open>
  Claim C7. With unique task identifiers: every task without a parent reference has a
  row, and such a row has depth 0; a row whose parent reference is the identifier of
  the task of another row is one level deeper than that row and comes after it, and
  every row between the two is deeper than the parent row and is the row of one of its
  descendants.
\<close>

theorem rows_preorder:
  assumes d: "distinct (map id' tasks)"
    and b: "buildTaskRows parse lc fuel tasks = Some rows"
  shows "(\<forall>t\<in>set tasks. parentTaskId t = None \<longrightarrow> (\<exists>r\<in>set rows. task r = t)) \<and>
         (\<forall>r\<in>set rows. parentTaskId (task r) = None \<longrightarrow> depth r = 0) \<and>
         (\<forall>i<length rows. \<forall>j<length rows.
            parentTaskId (task (rows ! j)) = Some (id' (task (rows ! i))) \<longrightarrow>
              depth (rows ! j) = depth (rows ! i) + 1 \<and> i < j \<and>
              (\<forall>k. i < k \<and> k < j \<longrightarrow>
                 depth (rows ! i) < depth (rows ! k) \<and>
                 ancestor tasks (task (rows ! k)) (task (rows ! i))))"
proof -
  have R: "rowsOK (byParent tasks) (compareTasks parse lc) rows"
    by (rule buildTaskRows_rowsOK [OF b])
  have N: "distinct (map number rows)" by (rule buildTaskRows_numbers_distinct [OF b])
  have one: "\<forall>t\<in>set tasks. parentTaskId t = None \<longrightarrow> (\<exists>r\<in>set rows. task r = t)"
    using buildTaskRows_roots [OF b] by blast
  have two: "\<forall>r\<in>set rows. parentTaskId (task r) = None \<longrightarrow> depth r = 0"
    using rows_root_depth [OF R] by blast
  have three: "depth (rows ! j) = depth (rows ! i) + 1 \<and> i < j \<and>
              (\<forall>k. i < k \<and> k < j \<longrightarrow>
                 depth (rows ! i) < depth (rows ! k) \<and>
                 ancestor tasks (task (rows ! k)) (task (rows ! i)))"
    if i: "i < length rows" and j: "j < length rows"
      and p: "parentTaskId (task (rows ! j)) = Some (id' (task (rows ! i)))" for i j
  proof -
    from rows_parent_row [OF d R N i j p]
    have dp: "depth (rows ! j) = depth (rows ! i) + 1" and ij: "i < j"
      and B: "\<forall>k. i < k \<and> k < j \<longrightarrow> depth (rows ! i) < depth (rows ! k)" by simp_all
    have "ancestor tasks (task (rows ! k)) (task (rows ! i))" if "i < k" "k < j" for k
      using between_descendants [OF R j B that] .
    then show ?thesis using dp ij B by blast
  qed
  show ?thesis using one two three by blast
qed

text \<open>
  Claim C8. The number strings of the rows are pairwise distinct. The number of a root
  row is its position, counted from 1, among the sorted roots; the number of any other
  row is the number of an earlier row, that of its parent, followed by a dot and its
  position, counted from 1, among the sorted children of that parent.
\<close>

theorem rows_numbers:
  assumes b: "buildTaskRows parse lc fuel tasks = Some rows"
  shows "distinct (map number rows) \<and>
         (\<forall>j<length rows.
            (parentTaskId (task (rows ! j)) = None \<longrightarrow>
               (\<exists>a < length (sortedBucket (byParent tasks) (compareTasks parse lc) None).
                  sortedBucket (byParent tasks) (compareTasks parse lc) None ! a = task (rows ! j) \<and>
                  number (rows ! j) = string_of_nat (a + 1))) \<and>
            (\<forall>p. parentTaskId (task (rows ! j)) = Some p \<longrightarrow>
               (\<exists>i<j. id' (task (rows ! i)) = p \<and>
                  (\<exists>a < length (sortedBucket (byParent tasks) (compareTasks parse lc) (Some p)).
                     sortedBucket (byParent tasks) (compareTasks parse lc) (Some p) ! a
                       = task (rows ! j) \<and>
                     number (rows ! j) = number (rows ! i) @ ''.'' @ string_of_nat (a + 1)))))"
proof -
  let ?cmp = "compareTasks parse lc"
  have R: "rowsOK (byParent tasks) ?cmp rows"
    by (rule buildTaskRows_rowsOK [OF b])
  have N: "distinct (map number rows)" by (rule buildTaskRows_numbers_distinct [OF b])
  have row: "(parentTaskId (task (rows ! j)) = None \<longrightarrow>
               (\<exists>a < length (sortedBucket (byParent tasks) ?cmp None).
                  sortedBucket (byParent tasks) ?cmp None ! a = task (rows ! j) \<and>
                  number (rows ! j) = string_of_nat (a + 1))) \<and>
            (\<forall>p. parentTaskId (task (rows ! j)) = Some p \<longrightarrow>
               (\<exists>i<j. id' (task (rows ! i)) = p \<and>
                  (\<exists>a < length (sortedBucket (byParent tasks) ?cmp (Some p)).
                     sortedBucket (byParent tasks) ?cmp (Some p) ! a = task (rows ! j) \<and>
                     number (rows ! j) = number (rows ! i) @ ''.'' @ string_of_nat (a + 1))))"
    if j: "j < length rows" for j
    using R j
  proof (cases rule: rowsOK_cases)
    case (root a)
    have "parentTaskId (task (rows ! j)) = None" using bucket_member [OF root(1,2)] by simp
    then show ?thesis using root by auto
  next
    case (child i a)
    have p: "parentTaskId (task (rows ! j)) = Some (id' (task (rows ! i)))"
      using bucket_member [OF child(2,3)] by simp
    show ?thesis
    proof (intro conjI allI impI)
      assume "parentTaskId (task (rows ! j)) = None"
      then show "\<exists>a < length (sortedBucket (byParent tasks) ?cmp None).
                  sortedBucket (byParent tasks) ?cmp None ! a = task (rows ! j) \<and>
                  number (rows ! j) = string_of_nat (a + 1)" using p by simp
    next
      fix q assume "parentTaskId (task (rows ! j)) = Some q"
      then have q: "q = id' (task (rows ! i))" using p by simp
      show "\<exists>i<j. id' (task (rows ! i)) = q \<and>
                  (\<exists>a < length (sortedBucket (byParent tasks) ?cmp (Some q)).
                     sortedBucket (byParent tasks) ?cmp (Some q) ! a = task (rows ! j) \<and>
                     number (rows ! j) = number (rows ! i) @ ''.'' @ string_of_nat (a + 1))"
        unfolding q using child(1,2,3,4) by blast
    qed
  qed
  show ?thesis using N row by blast
qed

text \<open>
  Claim C5. A task whose parent reference is the identifier of no task that is
  reachable from a root has no row.
\<close>

theorem dangling_parent_excluded:
  assumes b: "buildTaskRows parse lc fuel tasks = Some rows"
    and p: "parentTaskId t = Some p"
    and no: "\<forall>s. reachable tasks s \<longrightarrow> id' s \<noteq> p"
  shows "t \<notin> set (map task rows)"
proof
  assume "t \<in> set (map task rows)"
  then obtain j where j: "j < length rows" and e: "task (rows ! j) = t"
    by (auto simp: in_set_conv_nth)
  have R: "rowsOK (byParent tasks) (compareTasks parse lc) rows"
    by (rule buildTaskRows_rowsOK [OF b])
  have "reachable tasks t"
    using rows_reachDepth [OF R j] e reachDepth_reachable by blast
  then show False
    using p no by (cases rule: reachable.cases) auto
qed

text \<open>
  Claim C6. With unique task identifiers \<open>buildTaskRows\<close> returns, for a recursion depth
  of the number of tasks and for every greater one with the same rows; no task has two
  rows, every row is the row of a task of the input, and a task on a cycle of parent
  references has no row.
\<close>

theorem buildTaskRows_terminates:
  assumes d: "distinct (map id' tasks)"
  shows "\<exists>rows. buildTaskRows parse lc (length tasks) tasks = Some rows \<and>
           (\<forall>n. length tasks \<le> n \<longrightarrow> buildTaskRows parse lc n tasks = Some rows) \<and>
           distinct (map task rows) \<and> set (map task rows) \<subseteq> set tasks \<and>
           (\<forall>t. ancestor tasks t t \<longrightarrow> t \<notin> set (map task rows))"
proof -
  from buildTaskRows_returns [OF d order_refl] obtain rows where
    b: "buildTaskRows parse lc (length tasks) tasks = Some rows" by blast
  have R: "rowsOK (byParent tasks) (compareTasks parse lc) rows"
    by (rule buildTaskRows_rowsOK [OF b])
  have N: "distinct (map number rows)" by (rule buildTaskRows_numbers_distinct [OF b])
  have reach: "\<exists>k. reachDepth tasks t k" if "t \<in> set (map task rows)" for t
  proof -
    from that obtain j where "j < length rows" and "task (rows ! j) = t"
      by (auto simp: in_set_conv_nth)
    then show ?thesis using rows_reachDepth [OF R] by blast
  qed
  have fuel: "\<forall>n. length tasks \<le> n \<longrightarrow> buildTaskRows parse lc n tasks = Some rows"
    using buildTaskRows_fuel [OF b] by blast
  have dist: "distinct (map task rows)" by (rule rows_tasks_distinct [OF d R N])
  have sub: "set (map task rows) \<subseteq> set tasks"
    using reach reachDepth_in_tasks by blast
  have cyc: "\<forall>t. ancestor tasks t t \<longrightarrow> t \<notin> set (map task rows)"
    using reach reachDepth_not_cyclic [OF d] by blast
  show ?thesis using b fuel dist sub cyc by blast
qed

section \<open>Duplicate identifiers\<close>

lemma twins_children: "sortedBucket (byParent twins) cmp (Some 1) = [twinB]"
  by (simp add: sortedBucket_def getOrEmpty_byParent array_sort_def twins_def twinA_def
      twinB_def mkTask_def)

lemma twins_roots: "sortedBucket (byParent twins) cmp None = [twinA]"
  by (simp add: sortedBucket_def getOrEmpty_byParent array_sort_def twins_def twinA_def
      twinB_def mkTask_def)

lemma visit_twinB_diverges: "visit n (byParent twins) cmp twinB d num rows = None"
proof (induction n arbitrary: d num rows)
  case 0
  then show ?case by simp
next
  case (Suc n)
  have "id' twinB = 1" by (simp add: twinB_def mkTask_def)
  then show ?case by (simp add: Let_def twins_children Suc)
qed

text \<open>
  Where two tasks share an identifier and one of them names it as its parent, the
  children of that task include the task itself: the traversal returns for no
  recursion depth. The uniqueness of identifiers is needed for termination.
\<close>

lemma buildTaskRows_twins_diverges: "buildTaskRows parse lc n twins = None"
proof -
  have i: "id' twinA = 1" by (simp add: twinA_def mkTask_def)
  have "visit n (byParent twins) cmp twinA d num rows = None" for cmp d num rows
    by (cases n) (simp_all add: Let_def i twins_children visit_twinB_diverges)
  then show ?thesis by (simp add: buildTaskRows_def Let_def twins_roots)
qed

section \<open>Properties of the dependency lines\<close>

lemma taskIndexById_snoc:
  "taskIndexById (rows @ [r]) = (taskIndexById rows)(id' (task r) \<mapsto> length rows)"
  by (simp add: taskIndexById_def)

lemma taskIndexById_Some:
  "taskIndexById rows k = Some i \<Longrightarrow> i < length rows \<and> id' (task (rows ! i)) = k"
proof (induction rows arbitrary: i rule: rev_induct)
  case Nil
  then show ?case by (simp add: taskIndexById_def)
next
  case (snoc r rows)
  show ?case
  proof (cases "k = id' (task r)")
    case True
    then have "i = length rows" using snoc.prems by (simp add: taskIndexById_snoc)
    then show ?thesis using True by simp
  next
    case False
    then have "taskIndexById rows k = Some i" using snoc.prems by (simp add: taskIndexById_snoc)
    then have "i < length rows \<and> id' (task (rows ! i)) = k" by (rule snoc.IH)
    then show ?thesis by (simp add: nth_append)
  qed
qed

lemma taskIndexById_present:
  "r \<in> set rows \<Longrightarrow> \<exists>i. taskIndexById rows (id' (task r)) = Some i"
proof (induction rows rule: rev_induct)
  case Nil
  then show ?case by simp
next
  case (snoc x rows)
  then show ?case by (cases "id' (task r) = id' (task x)") (auto simp: taskIndexById_snoc)
qed

lemma dependencyStep_pairs:
  "linePair ` set (dependencyStep parse R rMs w rows idx row ri tr ls d) =
     linePair ` set ls \<union> (if resolves parse rows idx d then {(d, id' (task row))} else {})"
  by (auto simp: dependencyStep_def resolves_def linePair_def split: option.splits)

lemma foldl_dependencyStep_pairs:
  "linePair ` set (foldl (dependencyStep parse R rMs w rows idx row ri tr) ls ds) =
     linePair ` set ls \<union> {(d, id' (task row)) |d. d \<in> set ds \<and> resolves parse rows idx d}"
proof (induction ds arbitrary: ls)
  case Nil
  then show ?case by simp
next
  case (Cons d ds)
  show ?case
    unfolding foldl_Cons Cons.IH dependencyStep_pairs by auto
qed

lemma rowStep_pairs:
  "linePair ` set (rowStep parse R rMs w rows idx ls x) =
     linePair ` set ls \<union> rowPairs parse rows idx (fst x)"
proof (cases x)
  case (Pair row ri)
  show ?thesis
    unfolding Pair
    by (cases "getTaskRange parse (task row)")
       (simp_all add: rowStep_def rowPairs_def foldl_dependencyStep_pairs)
qed

lemma foldl_rowStep_pairs:
  "linePair ` set (foldl (rowStep parse R rMs w rows idx) ls rs) =
     linePair ` set ls \<union> (\<Union>x\<in>set rs. rowPairs parse rows idx (fst x))"
proof (induction rs arbitrary: ls)
  case Nil
  then show ?case by simp
next
  case (Cons x rs)
  show ?case
    unfolding foldl_Cons Cons.IH rowStep_pairs by (simp add: Un_assoc)
qed

lemma fst_zip_upt: "fst ` set (zip xs [0..<length xs]) = set xs"
proof -
  have "fst ` set (zip xs [0..<length xs]) = set (map fst (zip xs [0..<length xs]))"
    by (rule set_map [symmetric])
  also have "\<dots> = set xs" by (simp add: map_fst_zip)
  finally show ?thesis .
qed

lemma dependencyLines_pairs:
  "linePair ` set (dependencyLines parse idx rows (Some R) w) =
     (if w = 0 then {} else (\<Union>row\<in>set rows. rowPairs parse rows idx row))"
proof -
  have "(\<Union>x\<in>set (zip rows [0..<length rows]). rowPairs parse rows idx (fst x))
          = (\<Union>row\<in>fst ` set (zip rows [0..<length rows]). rowPairs parse rows idx row)"
    by blast
  also have "\<dots> = (\<Union>row\<in>set rows. rowPairs parse rows idx row)"
    by (simp only: fst_zip_upt)
  finally show ?thesis
    by (simp add: dependencyLines_def foldl_rowStep_pairs)
qed

lemma resolves_taskIndexById:
  assumes d: "distinct (map id' tasks)" and sub: "task ` set rows \<subseteq> set tasks"
  shows "resolves parse rows (taskIndexById rows) k \<longleftrightarrow>
         (\<exists>rd\<in>set rows. id' (task rd) = k \<and> getTaskRange parse (task rd) \<noteq> None)"
proof
  assume "resolves parse rows (taskIndexById rows) k"
  then obtain di dr where i: "taskIndexById rows k = Some di"
    and n: "nth_opt rows di = Some dr" and g: "getTaskRange parse (task dr) \<noteq> None"
    unfolding resolves_def by blast
  from taskIndexById_Some [OF i] have "di < length rows" "id' (task (rows ! di)) = k" by simp_all
  moreover have "dr = rows ! di" using n by (simp add: nth_opt_def split: if_splits)
  ultimately show "\<exists>rd\<in>set rows. id' (task rd) = k \<and> getTaskRange parse (task rd) \<noteq> None"
    using g by auto
next
  assume "\<exists>rd\<in>set rows. id' (task rd) = k \<and> getTaskRange parse (task rd) \<noteq> None"
  then obtain rd where rd: "rd \<in> set rows" "id' (task rd) = k"
    and g: "getTaskRange parse (task rd) \<noteq> None" by blast
  from taskIndexById_present [OF rd(1)] obtain di where i: "taskIndexById rows k = Some di"
    using rd(2) by auto
  from taskIndexById_Some [OF i] have l: "di < length rows" and e: "id' (task (rows ! di)) = k"
    by simp_all
  have "task (rows ! di) \<in> set tasks" using l sub by auto
  moreover have "task rd \<in> set tasks" using rd(1) sub by auto
  ultimately have "task (rows ! di) = task rd" using e rd(2) same_id [OF d] by simp
  then have "getTaskRange parse (task (rows ! di)) \<noteq> None" using g by simp
  moreover have "nth_opt rows di = Some (rows ! di)" using l by (simp add: nth_opt_def)
  ultimately show "resolves parse rows (taskIndexById rows) k"
    unfolding resolves_def using i by blast
qed

text \<open>
  Claim C2, amended. With unique task identifiers, a line from the dependency \<open>dep\<close>
  to the task \<open>t\<close> is emitted exactly when the timeline width is not zero, both have
  a row, \<open>dep\<close> is in the dependency list of \<open>t\<close>, and both have an interval.
\<close>

theorem dependencyLine_emitted:
  assumes d: "distinct (map id' tasks)"
    and b: "buildTaskRows parse lc fuel tasks = Some rows"
  shows "(\<exists>l \<in> set (dependencyLines parse (taskIndexById rows) rows
                     (timelineRange parse tasks) w).
            dependencyId l = dep \<and> dependentId l = t) \<longleftrightarrow>
         (w \<noteq> 0 \<and>
          (\<exists>rt\<in>set rows. \<exists>rd\<in>set rows.
             id' (task rt) = t \<and> id' (task rd) = dep \<and> dep \<in> set (dependsOn (task rt)) \<and>
             getTaskRange parse (task rt) \<noteq> None \<and> getTaskRange parse (task rd) \<noteq> None))"
proof -
  let ?lines = "dependencyLines parse (taskIndexById rows) rows (timelineRange parse tasks) w"
  let ?rhs = "\<exists>rt\<in>set rows. \<exists>rd\<in>set rows.
             id' (task rt) = t \<and> id' (task rd) = dep \<and> dep \<in> set (dependsOn (task rt)) \<and>
             getTaskRange parse (task rt) \<noteq> None \<and> getTaskRange parse (task rd) \<noteq> None"
  have R: "rowsOK (byParent tasks) (compareTasks parse lc) rows"
    by (rule buildTaskRows_rowsOK [OF b])
  have sub: "task ` set rows \<subseteq> set tasks"
  proof
    fix x assume "x \<in> task ` set rows"
    then obtain j where "j < length rows" "task (rows ! j) = x"
      by (auto simp: in_set_conv_nth)
    then show "x \<in> set tasks" using rows_reachDepth [OF R] reachDepth_in_tasks by blast
  qed
  have lhs: "(\<exists>l \<in> set ?lines. dependencyId l = dep \<and> dependentId l = t) \<longleftrightarrow>
             (dep, t) \<in> linePair ` set ?lines"
    by (auto simp: linePair_def image_iff)
  show ?thesis
  proof (cases "timelineRange parse tasks")
    case None
    have no: "getTaskRange parse u = None" if "u \<in> set tasks" for u
    proof (cases "getTaskRange parse u")
      case None then show ?thesis .
    next
      case (Some r)
      then have "r \<in> set (taskRanges parse tasks)" using that by (auto simp: set_taskRanges)
      then show ?thesis using None by (auto simp: timelineRange_None)
    qed
    have "\<not> ?rhs"
    proof
      assume ?rhs
      then obtain rt where rt: "rt \<in> set rows" "getTaskRange parse (task rt) \<noteq> None"
        by blast
      have "task rt \<in> set tasks" using rt(1) sub by (simp add: image_subset_iff)
      then show False using no rt(2) by simp
    qed
    moreover have "?lines = []" using None by (simp add: dependencyLines_def)
    ultimately show ?thesis by simp
  next
    case (Some TR)
    have mem: "(dep, t) \<in> rowPairs parse rows (taskIndexById rows) row \<longleftrightarrow>
        (id' (task row) = t \<and> dep \<in> set (dependsOn (task row)) \<and>
         getTaskRange parse (task row) \<noteq> None \<and>
         (\<exists>rd\<in>set rows. id' (task rd) = dep \<and> getTaskRange parse (task rd) \<noteq> None))"
      for row
      unfolding rowPairs_def resolves_taskIndexById [OF d sub] by auto
    have "(dep, t) \<in> linePair ` set ?lines \<longleftrightarrow>
          (w \<noteq> 0 \<and> (\<exists>row\<in>set rows. (dep, t) \<in> rowPairs parse rows (taskIndexById rows) row))"
      unfolding Some dependencyLines_pairs by simp
    also have "\<dots> \<longleftrightarrow> (w \<noteq> 0 \<and> ?rhs)"
      unfolding mem by auto
    finally show ?thesis unfolding lhs .
  qed
qed

section \<open>Examples\<close>

text \<open>
  Claim C2, as stated, fails while the timeline has not been measured: with the width
  0 no line is emitted, although the task and its dependency both have a row and an
  interval.
\<close>

theorem dependencyLine_width_counterexample:
  "buildTaskRows isoDates letterCollation 3 scenarioD = Some scenarioD_rows \<and>
   map task scenarioD_rows = [design, draft] \<and>
   id' design = 1 \<and> id' draft = 2 \<and> 1 \<in> set (dependsOn draft) \<and>
   getTaskRange isoDates design = Some \<lparr>start = 1704067200000, end' = 1704412800000\<rparr> \<and>
   getTaskRange isoDates draft = Some \<lparr>start = 1704153600000, end' = 1704240000000\<rparr> \<and>
   dependencyLines isoDates (taskIndexById scenarioD_rows) scenarioD_rows
     (timelineRange isoDates scenarioD) 0 = []"
  by code_simp

text \<open>
  Scenario D: with the width 400 the line from task 1 to task 2 is emitted; the
  dependency of task 2 on the orphan gives no line, and neither does the dependency
  of the orphan on task 1.
\<close>

theorem dependencyLine_emitted_witness:
  "distinct (map id' scenarioD) \<and>
   buildTaskRows isoDates letterCollation 3 scenarioD = Some scenarioD_rows \<and>
   (\<exists>l \<in> set (dependencyLines isoDates (taskIndexById scenarioD_rows) scenarioD_rows
                 (timelineRange isoDates scenarioD) 400).
        dependencyId l = 1 \<and> dependentId l = 2) \<and>
   \<not> (\<exists>l \<in> set (dependencyLines isoDates (taskIndexById scenarioD_rows) scenarioD_rows
                 (timelineRange isoDates scenarioD) 400).
        dependencyId l = 5 \<and> dependentId l = 2) \<and>
   \<not> (\<exists>l \<in> set (dependencyLines isoDates (taskIndexById scenarioD_rows) scenarioD_rows
                 (timelineRange isoDates scenarioD) 400).
        dependencyId l = 1 \<and> dependentId l = 5)"
proof -
  have d: "distinct (map id' scenarioD)" by code_simp
  have b: "buildTaskRows isoDates letterCollation 3 scenarioD = Some scenarioD_rows" by code_simp
  have g: "getTaskRange isoDates design \<noteq> None" "getTaskRange isoDates draft \<noteq> None"
    by (simp_all add: design_def draft_def mkTask_def getTaskRange_def parseDate_def isoDates_def)
  show ?thesis
    using d b g
      dependencyLine_emitted [OF d b, of 400 1 2]
      dependencyLine_emitted [OF d b, of 400 5 2]
      dependencyLine_emitted [OF d b, of 400 1 5]
    by (simp add: scenarioD_rows_def design_def draft_def mkTask_def)
qed

text \<open>
  Scenario C: the parent reference 99 names no task, and the task has no row.
\<close>

theorem dangling_parent_excluded_witness:
  "buildTaskRows isoDates letterCollation 3 scenarioC = Some scenarioA_rows \<and>
   parentTaskId orphan = Some 99 \<and> orphan \<in> set scenarioC \<and>
   orphan \<notin> set (map task scenarioA_rows)"
proof -
  have b: "buildTaskRows isoDates letterCollation 3 scenarioC = Some scenarioA_rows" by code_simp
  have p: "parentTaskId orphan = Some 99" by (simp add: orphan_def mkTask_def)
  have no: "\<forall>s. reachable scenarioC s \<longrightarrow> id' s \<noteq> 99"
  proof (intro allI impI)
    fix s assume "reachable scenarioC s"
    then have "s \<in> set scenarioC" by (rule reachable_in_tasks)
    then show "id' s \<noteq> 99"
      by (auto simp: scenarioC_def scenarioA_def orphan_def mkTask_def)
  qed
  have "orphan \<in> set scenarioC" by (simp add: scenarioC_def)
  then show ?thesis using b p dangling_parent_excluded [OF b p no] by simp
qed

text \<open>
  Two tasks that are each other's parent and a task that is its own parent: the
  traversal returns with the one root only.
\<close>

theorem buildTaskRows_terminates_witness:
  "distinct (map id' cyclic) \<and>
   (\<exists>rows. buildTaskRows isoDates letterCollation (length cyclic) cyclic = Some rows \<and>
      distinct (map task rows) \<and>
      ping \<notin> set (map task rows) \<and> pong \<notin> set (map task rows) \<and>
      selfParent \<notin> set (map task rows)) \<and>
   buildTaskRows isoDates letterCollation (length cyclic) cyclic =
     Some [\<lparr>task = solo, depth = 0, number = ''1''\<rparr>]"
proof -
  have d: "distinct (map id' cyclic)" by code_simp
  have e: "buildTaskRows isoDates letterCollation (length cyclic) cyclic =
     Some [\<lparr>task = solo, depth = 0, number = ''1''\<rparr>]" by code_simp
  have m: "ping \<in> set cyclic" "pong \<in> set cyclic" "selfParent \<in> set cyclic"
    by (simp_all add: cyclic_def)
  have p1: "parentTaskId ping = Some (id' pong)" by (simp add: ping_def pong_def mkTask_def)
  have p2: "parentTaskId pong = Some (id' ping)" by (simp add: ping_def pong_def mkTask_def)
  have p3: "parentTaskId selfParent = Some (id' selfParent)"
    by (simp add: selfParent_def mkTask_def)
  have a1: "ancestor cyclic ping pong" by (rule ancestor.parent [OF m(1) m(2) p1])
  have c1: "ancestor cyclic ping ping" by (rule ancestor.step [OF a1 m(1) p2])
  have a2: "ancestor cyclic pong ping" by (rule ancestor.parent [OF m(2) m(1) p2])
  have c2: "ancestor cyclic pong pong" by (rule ancestor.step [OF a2 m(2) p1])
  have c3: "ancestor cyclic selfParent selfParent" by (rule ancestor.parent [OF m(3) m(3) p3])
  from buildTaskRows_terminates [OF d, of isoDates letterCollation] obtain rows where
    b: "buildTaskRows isoDates letterCollation (length cyclic) cyclic = Some rows"
    and dist: "distinct (map task rows)"
    and cyc: "\<forall>t. ancestor cyclic t t \<longrightarrow> t \<notin> set (map task rows)" by blast
  have "ping \<notin> set (map task rows)" "pong \<notin> set (map task rows)"
    "selfParent \<notin> set (map task rows)"
    using cyc c1 c2 c3 by blast+
  then show ?thesis using d e b dist by blast
qed

text \<open>
  In the outline the second root is followed by its three children; the last of them
  comes after a grandchild, which is a descendant of that root.
\<close>

theorem rows_preorder_witness:
  "distinct (map id' outline) \<and>
   buildTaskRows isoDates letterCollation 6 outline = Some outline_rows \<and>
   depth (outline_rows ! 1) = 0 \<and>
   depth (outline_rows ! 5) = depth (outline_rows ! 1) + 1 \<and>
   depth (outline_rows ! 1) < depth (outline_rows ! 4) \<and>
   ancestor outline (task (outline_rows ! 4)) (task (outline_rows ! 1))"
proof -
  have d: "distinct (map id' outline)" by code_simp
  have b: "buildTaskRows isoDates letterCollation 6 outline = Some outline_rows" by code_simp
  have l: "length outline_rows = 6" by (simp add: outline_rows_def)
  have p: "parentTaskId (task (outline_rows ! 5)) = Some (id' (task (outline_rows ! 1)))"
    by (simp add: outline_rows_def roof_def build_def mkTask_def)
  have r: "outline_rows ! 1 \<in> set outline_rows" "parentTaskId (task (outline_rows ! 1)) = None"
    by (simp_all add: outline_rows_def build_def mkTask_def)
  from rows_preorder [OF d b]
  have roots: "\<forall>r\<in>set outline_rows. parentTaskId (task r) = None \<longrightarrow> depth r = 0"
    and kids: "\<forall>i<length outline_rows. \<forall>j<length outline_rows.
            parentTaskId (task (outline_rows ! j)) = Some (id' (task (outline_rows ! i))) \<longrightarrow>
              depth (outline_rows ! j) = depth (outline_rows ! i) + 1 \<and> i < j \<and>
              (\<forall>k. i < k \<and> k < j \<longrightarrow>
                 depth (outline_rows ! i) < depth (outline_rows ! k) \<and>
                 ancestor outline (task (outline_rows ! k)) (task (outline_rows ! i)))"
    by blast+
  have z: "depth (outline_rows ! 1) = 0" using roots r by blast
  have k: "depth (outline_rows ! 5) = depth (outline_rows ! 1) + 1 \<and> (1::nat) < 5 \<and>
              (\<forall>k. 1 < k \<and> k < 5 \<longrightarrow>
                 depth (outline_rows ! 1) < depth (outline_rows ! k) \<and>
                 ancestor outline (task (outline_rows ! k)) (task (outline_rows ! 1)))"
    using kids [rule_format, of 1 5] p l by simp
  then have "depth (outline_rows ! 1) < depth (outline_rows ! 4) \<and>
                 ancestor outline (task (outline_rows ! 4)) (task (outline_rows ! 1))"
    by simp
  then show ?thesis using d b z k by blast
qed

text \<open>
  In the outline the second root has the number 2 and its third child the number 2.3.
\<close>

theorem rows_numbers_witness:
  "buildTaskRows isoDates letterCollation 6 outline = Some outline_rows \<and>
   distinct (map number outline_rows) \<and>
   map number outline_rows = [''1'', ''2'', ''2.1'', ''2.2'', ''2.2.1'', ''2.3''] \<and>
   task (outline_rows ! 1) = build \<and> task (outline_rows ! 5) = roof \<and>
   sortedBucket (byParent outline) (compareTasks isoDates letterCollation) None ! 1 = build \<and>
   sortedBucket (byParent outline) (compareTasks isoDates letterCollation) (Some 2) ! 2 = roof"
proof -
  have b: "buildTaskRows isoDates letterCollation 6 outline = Some outline_rows" by code_simp
  have n: "map number outline_rows = [''1'', ''2'', ''2.1'', ''2.2'', ''2.2.1'', ''2.3'']"
    by (simp add: outline_rows_def)
  have t: "task (outline_rows ! 1) = build" "task (outline_rows ! 5) = roof"
    by (simp_all add: outline_rows_def)
  have s: "sortedBucket (byParent outline) (compareTasks isoDates letterCollation) None ! 1 = build"
    "sortedBucket (byParent outline) (compareTasks isoDates letterCollation) (Some 2) ! 2 = roof"
    by code_simp+
  show ?thesis using rows_numbers [OF b] b n t s by blast
qed

end
